theory Spec2Isabelle
  imports Complex_Main "HOL-Library.AList" "HOL-Library.Char_ord" "HOL-Library.List_Lexorder"
begin

section \<open>Data model of the interactive web simulator\<close>

text \<open>
  The development follows the System module (the file with \<open>Simulation.trim\<close>,
  \<open>Simulation.update_state\<close> and \<open>System.compile\<close>).

  Conventions of the embedding.
  \<^item> A JavaScript object used as a dictionary (\<open>System.species\<close>,
    \<open>System.parameters\<close>, \<open>Interaction.rules\<close>, \<open>Simulation.trajectory\<close>) is an
    association list in insertion order: \<open>obj[k] = v\<close> is \<open>AList.update k v\<close> (an
    existing key keeps its position, a new key goes to the end), \<open>delete obj[k]\<close> is
    \<open>AList.delete k\<close>, \<open>Object.keys\<close> and \<open>for (k in obj)\<close> are \<open>map fst\<close>.
    Identifiers are symbol names of rule expressions; for such keys the enumeration
    order of an object is its insertion order.
  \<^item> A slot that holds a number, \<open>undefined\<close> or \<open>NaN\<close> is a \<open>real option\<close>:
    \<open>None\<close> stands for \<open>undefined\<close>, an array hole and \<open>NaN\<close>. Rounding of
    IEEE doubles is not modelled.
  \<^item> An exception is the left summand of a sum type.
  \<^item> The services of math.js (\<open>parse\<close>, \<open>toString\<close>, \<open>eval\<close> of a compiled
    expression) and the integrator \<open>numeric.dopri\<close> are parameters of the functions
    that call them.
\<close>

type_synonym jsnum = "real option"

datatype error = TypeError | UndefinedSymbol string

text \<open>Expression trees of math.js. The code only ever tests \<open>node.type == 'SymbolNode'\<close>,
  reads and writes \<open>node.name\<close>, and builds \<open>OperatorNode('+', 'add', [l, r])\<close>.\<close>

datatype node =
    SymbolNode string
  | ConstantNode real
  | OperatorNode string string "node list"
  | OtherNode string "node list"

fun is_SymbolNode :: "node \<Rightarrow> bool" where
  "is_SymbolNode (SymbolNode n) = True"
| "is_SymbolNode _ = False"

fun node_name :: "node \<Rightarrow> string" where
  "node_name (SymbolNode n) = n"
| "node_name _ = ''undefined''"

text \<open>\<open>Node.filter(callback)\<close>: the nodes satisfying the callback, in the order of
  \<open>traverse\<close> (a node before its children, children left to right).\<close>

fun filter_node :: "(node \<Rightarrow> bool) \<Rightarrow> node \<Rightarrow> node list" where
  "filter_node P (SymbolNode n) = (if P (SymbolNode n) then [SymbolNode n] else [])"
| "filter_node P (ConstantNode c) = (if P (ConstantNode c) then [ConstantNode c] else [])"
| "filter_node P (OperatorNode op fn as) =
     (if P (OperatorNode op fn as) then [OperatorNode op fn as] else [])
       @ concat (map (filter_node P) as)"
| "filter_node P (OtherNode ty as) =
     (if P (OtherNode ty as) then [OtherNode ty as] else [])
       @ concat (map (filter_node P) as)"

record Rule =
  r_name :: "string option"
  r_expression :: "node option"

definition new_Rule :: Rule where
  "new_Rule = \<lparr>r_name = None, r_expression = None\<rparr>"

record Species =
  sp_name :: "string option"
  sp_value :: jsnum
  sp_rate_law :: Rule

definition new_Species :: "jsnum \<Rightarrow> string option \<Rightarrow> Species" where
  "new_Species initial_value name =
     \<lparr>sp_name = name, sp_value = initial_value, sp_rate_law = new_Rule\<rparr>"

record Parameter =
  par_value :: jsnum
  par_name :: "string option"

definition new_Parameter :: "jsnum \<Rightarrow> string option \<Rightarrow> Parameter" where
  "new_Parameter v name = \<lparr>par_value = v, par_name = name\<rparr>"

text \<open>An \<open>InteractionDefinition\<close> and an \<open>Interaction\<close> instance have the same fields
  (the instance is built by calling the definition's constructor on \<open>this\<close>); the
  back reference \<open>system\<close> is the system passed to the functions below.\<close>

record Interaction =
  i_name :: string
  rules :: "(string \<times> Rule) list"

record Config =
  refresh_rate :: real
  buffer_size :: real
  t_scale :: real

text \<open>A compiled expression (\<open>expression.compile(math)\<close>) is the expression it was
  compiled from; a model slot is \<open>None\<close> when it holds \<open>null\<close> or nothing.\<close>

datatype evaluator = Compiled node

record System =
  species :: "(string \<times> Species) list"
  parameters :: "(string \<times> Parameter) list"
  interactions :: "(string \<times> Interaction) list"
  live_interactions :: "Interaction list"
  model :: "evaluator option list"
  config :: Config

text \<open>\<open>arr[i] = v\<close> on a JavaScript array: an index beyond the end extends the array,
  leaving holes.\<close>

definition array_set :: "'a option list \<Rightarrow> nat \<Rightarrow> 'a option \<Rightarrow> 'a option list" where
  "array_set xs i v =
     (if i < length xs then xs[i := v] else xs @ replicate (i - length xs) None @ [v])"

text \<open>\<open>arr[i]\<close>: \<open>undefined\<close> out of range.\<close>

definition array_get :: "'a option list \<Rightarrow> nat \<Rightarrow> 'a option" where
  "array_get xs i = (if i < length xs then xs ! i else None)"

definition keys_at :: "string list \<Rightarrow> nat \<Rightarrow> string option" where
  "keys_at ks i = (if i < length ks then Some (ks ! i) else None)"

section \<open>InteractionDefinition\<close>

definition InteractionDefinition :: "string \<Rightarrow> string list \<Rightarrow> Interaction" where
  "InteractionDefinition name sps =
     \<lparr>i_name = name, rules = fold (\<lambda>v rs. AList.update v new_Rule rs) sps []\<rparr>"

definition variables :: "Interaction \<Rightarrow> string list" where
  "variables i = map fst (rules i)"

text \<open>The loop of \<open>parameters()\<close>. The callback of \<open>filter\<close> reads the array
  \<open>parameters\<close> as it stands when the rule is entered: the array is only replaced by
  \<open>parameters.concat(p_names)\<close> after the whole rule has been filtered.\<close>

fun parameters_loop :: "string list \<Rightarrow> (string \<times> Rule) list \<Rightarrow> string list \<Rightarrow> string list" where
  "parameters_loop vs [] ps = ps"
| "parameters_loop vs ((r_id, r) # rs) ps =
     (case r_expression r of
        None \<Rightarrow> parameters_loop vs rs ps
      | Some e \<Rightarrow>
          parameters_loop vs rs
            (ps @ map node_name
               (filter_node (\<lambda>n. is_SymbolNode n \<and> node_name n \<notin> set vs \<and> node_name n \<notin> set ps) e)))"

definition parameters_of :: "Interaction \<Rightarrow> string list" where
  "parameters_of i = parameters_loop (variables i) (rules i) []"

text \<open>The symbol names of an expression, in the order of \<open>traverse\<close>.\<close>

definition symbols_of :: "node \<Rightarrow> string list" where
  "symbols_of e = map node_name (filter_node is_SymbolNode e)"

section \<open>System: registries\<close>

definition addSpecies :: "System \<Rightarrow> string \<Rightarrow> jsnum \<Rightarrow> string option \<Rightarrow> System" where
  "addSpecies s identifier initial_value name =
     (let sp = AList.update identifier (new_Species initial_value name) (species s)
      in s\<lparr>species := sp, model := array_set (model s) (length sp - 1) None\<rparr>)"

definition addParameter :: "System \<Rightarrow> string \<Rightarrow> jsnum \<Rightarrow> string option \<Rightarrow> System" where
  "addParameter s identifier v name =
     s\<lparr>parameters := AList.update identifier (new_Parameter v name) (parameters s)\<rparr>"

definition defineInteraction :: "System \<Rightarrow> string \<Rightarrow> string list \<Rightarrow> System" where
  "defineInteraction s name sps =
     s\<lparr>interactions := AList.update name (InteractionDefinition name sps) (interactions s)\<rparr>"


text \<open>The System object as the module declares it.\<close>

text \<open>\<open>new Config()\<close>: 80 frames per second, a window of 10 time units.\<close>

definition default_Config :: Config where
  "default_Config = \<lparr>refresh_rate = 12.5, buffer_size = 10, t_scale = 5\<rparr>"

definition empty_System :: System where
  "empty_System =
     \<lparr>species = [], parameters = [], interactions = [], live_interactions = [], model = [],
      config = default_Config\<rparr>"

text \<open>\<open>System.interactions[name].rules[id].set(expression, name)\<close>, the way a
  definition gets its rules.\<close>

definition set_rule ::
  "(string \<Rightarrow> node) \<Rightarrow> System \<Rightarrow> string \<Rightarrow> string \<Rightarrow> string \<Rightarrow> string option \<Rightarrow> error + System" where
  "set_rule parse s name r_id expr_text rname =
     (case map_of (interactions s) name of
        None \<Rightarrow> Inl TypeError
      | Some d \<Rightarrow>
          (case map_of (rules d) r_id of
             None \<Rightarrow> Inl TypeError
           | Some r \<Rightarrow>
               Inr (s\<lparr>interactions :=
                      AList.update name
                        (d\<lparr>rules := AList.update r_id
                                      (r\<lparr>r_name := rname, r_expression := Some (parse expr_text)\<rparr>)
                                      (rules d)\<rparr>)
                        (interactions s)\<rparr>)))"

text \<open>\<open>removeInteractionsBySpecies\<close> and \<open>removeInteractionsByName\<close> splice the
  matching instances out, back to front.\<close>

definition removeInteractionsBySpecies :: "System \<Rightarrow> string list \<Rightarrow> System" where
  "removeInteractionsBySpecies s identifiers =
     s\<lparr>live_interactions :=
         fold (\<lambda>target_id ins. filter (\<lambda>interaction. target_id \<notin> set (variables interaction)) ins)
           identifiers (live_interactions s)\<rparr>"

definition removeInteractionsByName :: "System \<Rightarrow> string \<Rightarrow> System" where
  "removeInteractionsByName s name =
     s\<lparr>live_interactions := filter (\<lambda>interaction. i_name interaction \<noteq> name) (live_interactions s)\<rparr>"

text \<open>\<open>arr.splice(start, 1)\<close>: a negative start counts from the end.\<close>

definition splice1 :: "'a list \<Rightarrow> int \<Rightarrow> 'a list" where
  "splice1 xs start =
     (let n = int (length xs);
          st = nat (if start < 0 then max (n + start) 0 else min start n)
      in take st xs @ drop (Suc st) xs)"

section \<open>Binding: the Interaction constructor and addInteraction\<close>

text \<open>A loop whose body may raise: the first exception ends the loop.\<close>

fun for_each :: "('i \<Rightarrow> 'st \<Rightarrow> error + 'st) \<Rightarrow> 'i list \<Rightarrow> 'st \<Rightarrow> error + 'st" where
  "for_each f [] st = Inr st"
| "for_each f (i # ix) st = (case f i st of Inl e \<Rightarrow> Inl e | Inr st' \<Rightarrow> for_each f ix st')"

text \<open>\<open>Rule.set(expression, name)\<close>.\<close>

definition Rule_set :: "(string \<Rightarrow> node) \<Rightarrow> Rule \<Rightarrow> string \<Rightarrow> string option \<Rightarrow> Rule" where
  "Rule_set parse r expr_text name = r\<lparr>r_name := name, r_expression := Some (parse expr_text)\<rparr>"

text \<open>One round of the loop "Clone the Rule expressions": the rule of the definition
  at position \<open>i_r\<close> is re-parsed from its text into the rule of the instance at the
  same position. When the instance has no rule at that position \<open>new_rule\<close> is
  \<open>undefined\<close> and \<open>new_rule.set\<close> raises.\<close>

definition clone_rule ::
  "(string \<Rightarrow> node) \<Rightarrow> (node \<Rightarrow> string) \<Rightarrow> (string \<times> Rule) list \<Rightarrow> nat
     \<Rightarrow> (string \<times> Rule) list \<Rightarrow> error + (string \<times> Rule) list" where
  "clone_rule parse toStr base_rules i_r this_rules =
     (case r_expression (snd (base_rules ! i_r)) of
        None \<Rightarrow> Inr this_rules
      | Some e \<Rightarrow>
          (if i_r < length this_rules
           then Inr (this_rules[i_r :=
                  (fst (this_rules ! i_r), Rule_set parse (snd (this_rules ! i_r)) (toStr e) None)])
           else Inl TypeError))"

text \<open>The renaming loop over the SymbolNodes of one expression: every SymbolNode whose
  name is a key of the symbol table gets the table's entry as its name. Each node is
  visited once, so the renaming is simultaneous.\<close>

fun substitute :: "(string \<times> string) list \<Rightarrow> node \<Rightarrow> node" where
  "substitute tbl (SymbolNode n) =
     (if n \<in> set (map fst tbl)
      then (case map_of tbl n of Some n' \<Rightarrow> SymbolNode n' | None \<Rightarrow> SymbolNode n)
      else SymbolNode n)"
| "substitute tbl (ConstantNode c) = ConstantNode c"
| "substitute tbl (OperatorNode op fn as) = OperatorNode op fn (map (substitute tbl) as)"
| "substitute tbl (OtherNode ty as) = OtherNode ty (map (substitute tbl) as)"

definition substitute_rule :: "(string \<times> string) list \<Rightarrow> Rule \<Rightarrow> Rule" where
  "substitute_rule tbl r =
     (case r_expression r of
        None \<Rightarrow> r
      | Some e \<Rightarrow> r\<lparr>r_expression := Some (substitute tbl e)\<rparr>)"

text \<open>The constructor \<open>Interaction(base, v_args, p_args)\<close>. Each \<open>return\<close> of the
  validation leaves the constructor early; \<open>new\<close> still yields the object built so
  far, which is what \<open>Inr\<close> carries on those branches.\<close>

definition Interaction_new ::
  "(string \<Rightarrow> node) \<Rightarrow> (node \<Rightarrow> string) \<Rightarrow> System \<Rightarrow> Interaction \<Rightarrow> string list \<Rightarrow> string list
     \<Rightarrow> error + Interaction" where
  "Interaction_new parse toStr sys base v_args p_args =
     (let this = InteractionDefinition (i_name base) v_args in
      case for_each (clone_rule parse toStr (rules base)) [0..<length (rules base)] (rules this) of
        Inl e \<Rightarrow> Inl e
      | Inr rs \<Rightarrow>
          (let this = this\<lparr>rules := rs\<rparr>;
               v_ids = variables base;
               p_ids = parameters_of base
           in if \<not> list_all (\<lambda>v. v \<in> set (map fst (species sys))) v_args then Inr this
              else if \<not> list_all (\<lambda>p. p \<in> set (map fst (parameters sys))) p_args then Inr this
              else if length v_args \<noteq> length v_ids then Inr this
              else if length p_args \<noteq> length p_ids then Inr this
              else
                (let symbol_table = AList.updates p_ids p_args (AList.updates v_ids v_args [])
                 in Inr (this\<lparr>rules := map (\<lambda>(r_id, r). (r_id, substitute_rule symbol_table r)) rs\<rparr>))))"

text \<open>\<open>System.addInteraction\<close>. An unknown \<open>id\<close> makes \<open>base_definition\<close>
  \<open>undefined\<close>, and the constructor raises on \<open>base.system\<close>.\<close>

definition addInteraction ::
  "(string \<Rightarrow> node) \<Rightarrow> (node \<Rightarrow> string) \<Rightarrow> System \<Rightarrow> string \<Rightarrow> string list \<Rightarrow> string list
     \<Rightarrow> error + System" where
  "addInteraction parse toStr s ident v_args p_args =
     (case map_of (interactions s) ident of
        None \<Rightarrow> Inl TypeError
      | Some base_definition \<Rightarrow>
          (case Interaction_new parse toStr s base_definition v_args p_args of
             Inl e \<Rightarrow> Inl e
           | Inr i \<Rightarrow> Inr (s\<lparr>live_interactions := live_interactions s @ [i]\<rparr>)))"

text \<open>The conditions under which the binding step has to reject a call.\<close>

definition must_reject :: "System \<Rightarrow> Interaction \<Rightarrow> string list \<Rightarrow> string list \<Rightarrow> bool" where
  "must_reject s base v_args p_args \<longleftrightarrow>
     \<not> list_all (\<lambda>v. v \<in> set (map fst (species s))) v_args
     \<or> \<not> list_all (\<lambda>p. p \<in> set (map fst (parameters s))) p_args
     \<or> length v_args \<noteq> length (variables base)
     \<or> length p_args \<noteq> length (parameters_of base)"

section \<open>The model compiler\<close>

text \<open>\<open>Array.indexOf\<close>: the first position of an element, \<open>-1\<close> when absent.\<close>

fun index_from :: "'a list \<Rightarrow> 'a \<Rightarrow> nat \<Rightarrow> int" where
  "index_from [] x i = - 1"
| "index_from (y # ys) x i = (if y = x then int i else index_from ys x (Suc i))"

definition indexOf :: "'a list \<Rightarrow> 'a \<Rightarrow> int" where
  "indexOf xs x = index_from xs x 0"

text \<open>\<open>System.removeSpecies(identifier)\<close>.\<close>

definition removeSpecies :: "System \<Rightarrow> string \<Rightarrow> System" where
  "removeSpecies s identifier =
     (let s1 = removeInteractionsBySpecies s [identifier]
      in s1\<lparr>model := splice1 (model s1) (indexOf (map fst (species s1)) identifier),
            species := AList.delete identifier (species s1)\<rparr>)"

text \<open>\<open>expression.clone()\<close> yields a structurally equal tree.\<close>

definition clone :: "node \<Rightarrow> node" where
  "clone e = e"

definition reset_rate_law :: "Species \<Rightarrow> Species" where
  "reset_rate_law sp = sp\<lparr>sp_rate_law := (sp_rate_law sp)\<lparr>r_expression := None\<rparr>\<rparr>"

text \<open>The body of the inner loop of \<open>compile\<close> for one participant of one instance.
  \<open>participant\<close> is \<open>undefined\<close> when the id names no species; reading its
  \<open>rate_law\<close> then raises.\<close>

definition add_term ::
  "Interaction \<Rightarrow> string \<Rightarrow> (string \<times> Species) list \<Rightarrow> error + (string \<times> Species) list" where
  "add_term interaction participant_id sps =
     (case map_of (rules interaction) participant_id of
        None \<Rightarrow> Inl TypeError
      | Some r \<Rightarrow>
          (case r_expression r of
             None \<Rightarrow> Inr sps
           | Some e \<Rightarrow>
               (case map_of sps participant_id of
                  None \<Rightarrow> Inl TypeError
                | Some participant \<Rightarrow>
                    Inr (AList.update participant_id
                      (participant\<lparr>sp_rate_law := (sp_rate_law participant)\<lparr>r_expression :=
                         Some (case r_expression (sp_rate_law participant) of
                                 None \<Rightarrow> clone e
                               | Some previous \<Rightarrow> OperatorNode ''+'' ''add'' [previous, clone e])\<rparr>\<rparr>)
                      sps))))"

definition aggregate ::
  "Interaction list \<Rightarrow> (string \<times> Species) list \<Rightarrow> error + (string \<times> Species) list" where
  "aggregate ins sps = for_each (\<lambda>interaction. for_each (add_term interaction) (variables interaction)) ins sps"

text \<open>What one species contributes to the model: its compiled rate law, or
  \<open>math.compile("0")\<close> when the rate law is unset.\<close>

definition compile_rate_law :: "(string \<Rightarrow> node) \<Rightarrow> Species \<Rightarrow> evaluator" where
  "compile_rate_law parse sp =
     (case r_expression (sp_rate_law sp) of
        Some e \<Rightarrow> Compiled e
      | None \<Rightarrow> Compiled (parse ''0''))"

definition compile_model ::
  "(string \<Rightarrow> node) \<Rightarrow> (string \<times> Species) list \<Rightarrow> evaluator option list \<Rightarrow> evaluator option list" where
  "compile_model parse sps m =
     fold (\<lambda>(sp, spc) m. array_set m (nat (indexOf (map fst sps) sp)) (Some (compile_rate_law parse spc)))
       sps m"

definition compile :: "(string \<Rightarrow> node) \<Rightarrow> System \<Rightarrow> error + System" where
  "compile parse s =
     (case aggregate (live_interactions s) (map (\<lambda>(sp, spc). (sp, reset_rate_law spc)) (species s)) of
        Inl e \<Rightarrow> Inl e
      | Inr sps \<Rightarrow> Inr (s\<lparr>species := sps, model := compile_model parse sps (model s)\<rparr>))"


section \<open>The derivative function and the batch run\<close>

text \<open>A property key: \<open>scope[undefined] = v\<close> writes the key \<open>"undefined"\<close>.\<close>

definition js_key :: "string option \<Rightarrow> string" where
  "js_key k = (case k of None \<Rightarrow> ''undefined'' | Some n \<Rightarrow> n)"

fun map_err :: "('a \<Rightarrow> error + 'b) \<Rightarrow> 'a list \<Rightarrow> error + 'b list" where
  "map_err f [] = Inr []"
| "map_err f (x # xs) =
     (case f x of
        Inl e \<Rightarrow> Inl e
      | Inr v \<Rightarrow> (case map_err f xs of Inl e \<Rightarrow> Inl e | Inr vs \<Rightarrow> Inr (v # vs)))"

text \<open>The scope of \<open>dY\<close>: first the species ids against \<open>y\<close>, then every parameter.\<close>

definition dY_scope :: "System \<Rightarrow> jsnum list \<Rightarrow> (string \<rightharpoonup> jsnum)" where
  "dY_scope system y =
     (let species_ids = map fst (species system);
          scope = fold (\<lambda>i_y sc. sc(js_key (keys_at species_ids i_y) \<mapsto> y ! i_y)) [0..<length y] Map.empty
      in fold (\<lambda>(p, par) sc. sc(p \<mapsto> par_value par)) (parameters system) scope)"

text \<open>\<open>ev e scope\<close> is \<open>eval(scope)\<close> of the compiled expression \<open>e\<close>. A model slot
  that is \<open>null\<close> or missing makes \<open>system.model[i_y].eval\<close> raise.\<close>

definition dY ::
  "(node \<Rightarrow> (string \<rightharpoonup> jsnum) \<Rightarrow> error + jsnum) \<Rightarrow> System \<Rightarrow> real \<Rightarrow> jsnum list \<Rightarrow> error + jsnum list" where
  "dY ev system t y =
     (let scope = dY_scope system y
      in map_err (\<lambda>i_y. case array_get (model system) i_y of
                          None \<Rightarrow> Inl TypeError
                        | Some (Compiled e) \<Rightarrow> ev e scope) [0..<length y])"

text \<open>The result of \<open>numeric.dopri\<close>: the times \<open>x\<close> and one state vector per time in \<open>y\<close>.\<close>

record solution =
  sol_x :: "jsnum list"
  sol_y :: "jsnum list list"

type_synonym integrator =
  "real \<Rightarrow> real \<Rightarrow> jsnum list \<Rightarrow> (real \<Rightarrow> jsnum list \<Rightarrow> error + jsnum list) \<Rightarrow> error + solution"

text \<open>\<open>numeric.transpose(x)\<close>: as many rows as \<open>x[0]\<close> has entries, each as long as
  \<open>x\<close>; it reads \<open>x[0].length\<close> and so raises on an empty \<open>x\<close>.\<close>

definition numeric_transpose :: "jsnum list list \<Rightarrow> error + jsnum list list" where
  "numeric_transpose x =
     (case x of
        [] \<Rightarrow> Inl TypeError
      | r # _ \<Rightarrow> Inr (map (\<lambda>j. map (\<lambda>row. array_get row j) x) [0..<length r]))"

section \<open>Simulation: the state buffer\<close>

text \<open>A trajectory entry is \<open>None\<close> when the key holds \<open>undefined\<close>.\<close>

record Simulation =
  time :: "jsnum list"
  trajectory :: "(string \<times> jsnum list option) list"

text \<open>What the constructor can receive as its first argument: \<open>null\<close>, a System, or
  (from \<open>System.simulate\<close>) the array \<open>Object.keys(this.species)\<close>.\<close>

datatype system_arg = Null | Sys System | Keys "string list"

definition row_at :: "'a list \<Rightarrow> int \<Rightarrow> 'a option" where
  "row_at y i = (if 0 \<le> i \<and> nat i < length y then Some (y ! nat i) else None)"

text \<open>The constructor \<open>Simulation(system, solution)\<close>. An array is truthy and has no
  property \<open>species\<close>, and \<open>for (sp in undefined)\<close> runs no round: with an array of
  keys the trajectory stays empty.\<close>

definition Simulation_new :: "system_arg \<Rightarrow> solution option \<Rightarrow> error + Simulation" where
  "Simulation_new system sol =
     (let time0 = (case sol of None \<Rightarrow> [Some 0] | Some so \<Rightarrow> sol_x so)
      in case system of
           Null \<Rightarrow> Inr \<lparr>time = time0, trajectory = []\<rparr>
         | Keys ks \<Rightarrow>
             (case sol of
                None \<Rightarrow> Inr \<lparr>time = time0, trajectory = []\<rparr>
              | Some so \<Rightarrow>
                  (case numeric_transpose (sol_y so) of
                     Inl e \<Rightarrow> Inl e
                   | Inr y \<Rightarrow> Inr \<lparr>time = time0, trajectory = []\<rparr>))
         | Sys s \<Rightarrow>
             (case sol of
                None \<Rightarrow>
                  Inr \<lparr>time = time0,
                       trajectory = map (\<lambda>(sp, spc). (sp, Some [sp_value spc])) (species s)\<rparr>
              | Some so \<Rightarrow>
                  (case numeric_transpose (sol_y so) of
                     Inl e \<Rightarrow> Inl e
                   | Inr y \<Rightarrow>
                       Inr \<lparr>time = time0,
                            trajectory =
                              map (\<lambda>(sp, spc). (sp, row_at y (indexOf (map fst (species s)) sp)))
                                (species s)\<rparr>)))"

text \<open>Arithmetic on number slots: anything with \<open>undefined\<close> or \<open>NaN\<close> is \<open>NaN\<close>,
  and a comparison with \<open>NaN\<close> is false.\<close>

definition js_add :: "jsnum \<Rightarrow> jsnum \<Rightarrow> jsnum" where
  "js_add a b = (case (a, b) of (Some u, Some v) \<Rightarrow> Some (u + v) | _ \<Rightarrow> None)"

definition js_sub :: "jsnum \<Rightarrow> jsnum \<Rightarrow> jsnum" where
  "js_sub a b = (case (a, b) of (Some u, Some v) \<Rightarrow> Some (u - v) | _ \<Rightarrow> None)"


text \<open>\<open>a[a.length-1]\<close> and \<open>a[0]\<close>.\<close>

definition last_elem :: "jsnum list \<Rightarrow> jsnum" where
  "last_elem xs = (if xs = [] then None else last xs)"

definition first_elem :: "jsnum list \<Rightarrow> jsnum" where
  "first_elem xs = (case xs of [] \<Rightarrow> None | v # _ \<Rightarrow> v)"

text \<open>\<open>time.indexOf(t0)\<close> compares with \<open>===\<close>: \<open>NaN\<close> is never found.\<close>

definition num_indexOf :: "jsnum list \<Rightarrow> jsnum \<Rightarrow> int" where
  "num_indexOf xs t = (case t of None \<Rightarrow> - 1 | Some v \<Rightarrow> indexOf xs (Some v))"


text \<open>\<open>Simulation.trim(buffer_size)\<close>: \<open>i_t0\<close> calls of \<open>shift()\<close> on the time array and
  on every trajectory (none when \<open>i_t0\<close> is \<open>-1\<close>); \<open>shift\<close> on an \<open>undefined\<close>
  trajectory raises.\<close>

definition trim :: "Simulation \<Rightarrow> real \<Rightarrow> error + Simulation" where
  "trim sim bsize =
     (let t0 = js_sub (last_elem (time sim)) (Some bsize);
          i_t0 = num_indexOf (time sim) t0
      in if 0 < i_t0 \<and> list_ex (\<lambda>(id_tr, tr). tr = None) (trajectory sim)
         then Inl TypeError
         else Inr \<lparr>time = drop (nat i_t0) (time sim),
                   trajectory = map (\<lambda>(id_tr, tr). (id_tr, map_option (drop (nat i_t0)) tr)) (trajectory sim)\<rparr>)"



definition lookup_trajectory :: "Simulation \<Rightarrow> string \<Rightarrow> jsnum list option" where
  "lookup_trajectory sim k = (case map_of (trajectory sim) k of Some (Some xs) \<Rightarrow> Some xs | _ \<Rightarrow> None)"



text \<open>\<open>System.simulate(t0, tf)\<close>: the model slots are rebuilt with a running counter
  \<open>i_sp\<close>, the integrator runs from the species' current values, the result is
  wrapped by \<open>new Simulation(Object.keys(this.species), solution)\<close>, and the
  write-back loop reads \<open>simulation.trajectory[sp]\<close> for every species.\<close>

definition write_back :: "Simulation \<Rightarrow> string \<Rightarrow> (string \<times> Species) list \<Rightarrow> error + (string \<times> Species) list" where
  "write_back simulation sp sps =
     (case lookup_trajectory simulation sp of
        None \<Rightarrow> Inl TypeError
      | Some tr \<Rightarrow> Inr (map (\<lambda>(k, spc). if k = sp then (k, spc\<lparr>sp_value := last_elem tr\<rparr>) else (k, spc)) sps))"

definition simulate ::
  "(string \<Rightarrow> node) \<Rightarrow> (node \<Rightarrow> (string \<rightharpoonup> jsnum) \<Rightarrow> error + jsnum) \<Rightarrow> integrator \<Rightarrow> System \<Rightarrow> real \<Rightarrow> real
     \<Rightarrow> error + (Simulation \<times> System)" where
  "simulate parse ev dopri s t0 tf =
     (let m = fold (\<lambda>(i_sp, sp, spc) m. array_set m i_sp (Some (compile_rate_law parse spc)))
                (enumerate 0 (species s)) (model s);
          initial_values = map (\<lambda>(sp, spc). sp_value spc) (species s);
          s1 = s\<lparr>model := m\<rparr>
      in case dopri t0 tf initial_values (dY ev s1) of
           Inl e \<Rightarrow> Inl e
         | Inr so \<Rightarrow>
             (case Simulation_new (Keys (map fst (species s1))) (Some so) of
                Inl e \<Rightarrow> Inl e
              | Inr simulation \<Rightarrow>
                  (case for_each (write_back simulation) (map fst (species s1)) (species s1) of
                     Inl e \<Rightarrow> Inl e
                   | Inr sps \<Rightarrow> Inr (simulation, s1\<lparr>species := sps\<rparr>))))"

text \<open>The rate law the specification describes for one species: the terms that the
  live instances contribute to it, in registration order, summed to the left.\<close>

fun add_to :: "node option \<Rightarrow> node \<Rightarrow> node option" where
  "add_to None e = Some e"
| "add_to (Some previous) e = Some (OperatorNode ''+'' ''add'' [previous, e])"

definition terms_of_instance :: "string \<Rightarrow> Interaction \<Rightarrow> node list" where
  "terms_of_instance sp i =
     (case map_of (rules i) sp of
        None \<Rightarrow> []
      | Some r \<Rightarrow> (case r_expression r of None \<Rightarrow> [] | Some e \<Rightarrow> [e]))"



text \<open>The rate-law expression a species list holds for an id.\<close>

definition rate_law_of :: "(string \<times> Species) list \<Rightarrow> string \<Rightarrow> node option" where
  "rate_law_of sps sp =
     (case map_of sps sp of None \<Rightarrow> None | Some spc \<Rightarrow> r_expression (sp_rate_law spc))"

section \<open>Reachable state buffers\<close>

text \<open>The buffer invariant: every trajectory is an array as long as \<open>time\<close>.\<close>

definition synced :: "Simulation \<Rightarrow> bool" where
  "synced sim \<longleftrightarrow>
     list_all (\<lambda>(id_tr, tr). case tr of None \<Rightarrow> False | Some xs \<Rightarrow> length xs = length (time sim))
       (trajectory sim)"




section \<open>Reachable systems\<close>

text \<open>The systems that the operations of the module produce from the System object as
  declared. An operation that raises leaves the system as far as it got: when
  \<open>compile\<close> raises, some rate laws have been rewritten, and when \<open>simulate\<close> raises
  after its first loop, the model slots have been rebuilt; the last two rules cover
  these states (the first of them allows any rewriting of rate-law expressions).\<close>

inductive reachable_System :: "System \<Rightarrow> bool" where
  initial:
    "reachable_System empty_System"
| species_added:
    "reachable_System s \<Longrightarrow> reachable_System (addSpecies s identifier v name)"
| species_removed:
    "reachable_System s \<Longrightarrow> reachable_System (removeSpecies s identifier)"
| parameter_added:
    "reachable_System s \<Longrightarrow> reachable_System (addParameter s identifier v name)"
| interaction_defined:
    "reachable_System s \<Longrightarrow> reachable_System (defineInteraction s nm sps)"
| rule_set:
    "reachable_System s \<Longrightarrow> set_rule parse s nm r_id txt rname = Inr s' \<Longrightarrow> reachable_System s'"
| interaction_added:
    "reachable_System s \<Longrightarrow> addInteraction parse toStr s ident v_args p_args = Inr s' \<Longrightarrow>
     reachable_System s'"
| interactions_removed_by_species:
    "reachable_System s \<Longrightarrow> reachable_System (removeInteractionsBySpecies s identifiers)"
| interactions_removed_by_name:
    "reachable_System s \<Longrightarrow> reachable_System (removeInteractionsByName s nm)"
| compiled:
    "reachable_System s \<Longrightarrow> compile parse s = Inr s' \<Longrightarrow> reachable_System s'"
| simulated:
    "reachable_System s \<Longrightarrow> simulate parse ev dopri s t0 tf = Inr (sim, s') \<Longrightarrow> reachable_System s'"
| rate_laws_rewritten:
    "reachable_System s \<Longrightarrow>
     map (\<lambda>(k, spc). (k, reset_rate_law spc)) sps = map (\<lambda>(k, spc). (k, reset_rate_law spc)) (species s) \<Longrightarrow>
     reachable_System (s\<lparr>species := sps\<rparr>)"
| model_rebuilt:
    "reachable_System s \<Longrightarrow>
     reachable_System
       (s\<lparr>model := fold (\<lambda>(i_sp, sp, spc) m. array_set m i_sp (Some (compile_rate_law parse spc)))
                        (enumerate 0 (species s)) (model s)\<rparr>)"



section \<open>The binding step on a store of nodes\<close>

text \<open>
  The constructor renames SymbolNodes in place (\<open>node.name = symbol_table[node.name]\<close>),
  so whether an instance and its definition share nodes matters. Here the nodes live
  in a store: an address is an index into a list of nodes, a node refers to its
  children by address, and a new node goes to the end of the store. A rule holds the
  address of the root of its expression. The trees of the program are finite and
  acyclic and are built children first, so a child has a smaller address than its
  parent; the functions that walk a tree stop at a child address that is not smaller.
\<close>

datatype hnode =
    HSymbol string
  | HConstant real
  | HOperator string string "nat list"
  | HOther string "nat list"

type_synonym store = "hnode list"

fun children :: "hnode \<Rightarrow> nat list" where
  "children (HSymbol n) = []"
| "children (HConstant c) = []"
| "children (HOperator op fn cs) = cs"
| "children (HOther ty cs) = cs"

fun is_HSymbol :: "hnode \<Rightarrow> bool" where
  "is_HSymbol (HSymbol n) = True"
| "is_HSymbol _ = False"

text \<open>The tree below an address, as \<open>toString\<close> walks it; \<open>None\<close> when the address or
  one below it holds no node.\<close>

function tree_at :: "store \<Rightarrow> nat \<Rightarrow> node option" where
  "tree_at h a =
     (if a < length h then
        (case h ! a of
           HSymbol n \<Rightarrow> Some (SymbolNode n)
         | HConstant c \<Rightarrow> Some (ConstantNode c)
         | HOperator op fn cs \<Rightarrow>
             map_option (OperatorNode op fn) (those (map (\<lambda>c. if c < a then tree_at h c else None) cs))
         | HOther ty cs \<Rightarrow>
             map_option (OtherNode ty) (those (map (\<lambda>c. if c < a then tree_at h c else None) cs)))
      else None)"
  by pat_completeness auto
termination
  by (relation "measure snd") auto

declare tree_at.simps [simp del]

text \<open>The addresses of the nodes of a tree, in the order of \<open>traverse\<close>.\<close>

function nodes_of :: "store \<Rightarrow> nat \<Rightarrow> nat list" where
  "nodes_of h a =
     (if a < length h
      then a # concat (map (\<lambda>c. if c < a then nodes_of h c else []) (children (h ! a)))
      else [])"
  by pat_completeness auto
termination
  by (relation "measure snd") auto

declare nodes_of.simps [simp del]

text \<open>\<open>expression.filter(function (node) { return node.type == 'SymbolNode' })\<close>.\<close>

definition symbol_addrs :: "store \<Rightarrow> nat \<Rightarrow> nat list" where
  "symbol_addrs h a = filter (\<lambda>b. is_HSymbol (h ! b)) (nodes_of h a)"

text \<open>\<open>math.parse\<close> builds the tree it returns from new nodes.\<close>

fun alloc :: "node \<Rightarrow> store \<Rightarrow> nat \<times> store"
  and allocs :: "node list \<Rightarrow> store \<Rightarrow> nat list \<times> store" where
  "alloc (SymbolNode n) h = (length h, h @ [HSymbol n])"
| "alloc (ConstantNode c) h = (length h, h @ [HConstant c])"
| "alloc (OperatorNode op fn as) h =
     (case allocs as h of (cs, h') \<Rightarrow> (length h', h' @ [HOperator op fn cs]))"
| "alloc (OtherNode ty as) h =
     (case allocs as h of (cs, h') \<Rightarrow> (length h', h' @ [HOther ty cs]))"
| "allocs [] h = ([], h)"
| "allocs (a # as) h =
     (case alloc a h of (c, h1) \<Rightarrow> (case allocs as h1 of (cs, h2) \<Rightarrow> (c # cs, h2)))"

record HRule =
  h_name :: "string option"
  h_expression :: "nat option"

definition new_HRule :: HRule where
  "new_HRule = \<lparr>h_name = None, h_expression = None\<rparr>"

text \<open>The rules of a definition as values: each expression read from the store.\<close>

definition rules_in :: "store \<Rightarrow> (string \<times> HRule) list \<Rightarrow> (string \<times> Rule) list" where
  "rules_in h rs =
     map (\<lambda>(k, r). (k, \<lparr>r_name = h_name r,
                          r_expression = (case h_expression r of None \<Rightarrow> None | Some a \<Rightarrow> tree_at h a)\<rparr>)) rs"

text \<open>One round of the loop "Clone the Rule expressions" on the store:
  \<open>new_rule.set(old_rule.expression.toString())\<close> prints the tree of the old rule
  and parses the text into new nodes.\<close>

definition clone_rule_heap ::
  "(string \<Rightarrow> node) \<Rightarrow> (node \<Rightarrow> string) \<Rightarrow> (string \<times> HRule) list \<Rightarrow> nat
     \<Rightarrow> (string \<times> HRule) list \<times> store \<Rightarrow> error + (string \<times> HRule) list \<times> store" where
  "clone_rule_heap parse toStr base_rules i_r st =
     (case st of (this_rules, h) \<Rightarrow>
        (case h_expression (snd (base_rules ! i_r)) of
           None \<Rightarrow> Inr (this_rules, h)
         | Some rt \<Rightarrow>
             (if i_r < length this_rules
              then (case tree_at h rt of
                      None \<Rightarrow> Inl TypeError
                    | Some e \<Rightarrow>
                        (case alloc (parse (toStr e)) h of
                           (rt', h') \<Rightarrow>
                             Inr (this_rules[i_r := (fst (this_rules ! i_r),
                                    \<lparr>h_name = None, h_expression = Some rt'\<rparr>)], h')))
              else Inl TypeError)))"

text \<open>\<open>node.name = symbol_table[node.name]\<close> for a node whose name is a key of the
  table.\<close>

definition rename_node :: "(string \<times> string) list \<Rightarrow> nat \<Rightarrow> store \<Rightarrow> store" where
  "rename_node tbl a h =
     (case h ! a of
        HSymbol n \<Rightarrow>
          (if n \<in> set (map fst tbl)
           then (case map_of tbl n of Some n' \<Rightarrow> h[a := HSymbol n'] | None \<Rightarrow> h)
           else h)
      | _ \<Rightarrow> h)"

definition substitute_heap :: "(string \<times> string) list \<Rightarrow> HRule \<Rightarrow> store \<Rightarrow> store" where
  "substitute_heap tbl r h =
     (case h_expression r of
        None \<Rightarrow> h
      | Some rt \<Rightarrow> fold (rename_node tbl) (symbol_addrs h rt) h)"

text \<open>The constructor on the store: the rules of the instance and the store it leaves.\<close>

definition Interaction_heap ::
  "(string \<Rightarrow> node) \<Rightarrow> (node \<Rightarrow> string) \<Rightarrow> System \<Rightarrow> string \<Rightarrow> (string \<times> HRule) list
     \<Rightarrow> string list \<Rightarrow> string list \<Rightarrow> store \<Rightarrow> error + (string \<times> HRule) list \<times> store" where
  "Interaction_heap parse toStr sys base_name base_rules v_args p_args h =
     (case for_each (clone_rule_heap parse toStr base_rules) [0..<length base_rules]
             (fold (\<lambda>v rs. AList.update v new_HRule rs) v_args [], h) of
        Inl e \<Rightarrow> Inl e
      | Inr (rs, h1) \<Rightarrow>
          (let v_ids = map fst base_rules;
               p_ids = parameters_of \<lparr>i_name = base_name, rules = rules_in h1 base_rules\<rparr>
           in if \<not> list_all (\<lambda>v. v \<in> set (map fst (species sys))) v_args then Inr (rs, h1)
              else if \<not> list_all (\<lambda>p. p \<in> set (map fst (parameters sys))) p_args then Inr (rs, h1)
              else if length v_args \<noteq> length v_ids then Inr (rs, h1)
              else if length p_args \<noteq> length p_ids then Inr (rs, h1)
              else
                (let symbol_table = AList.updates p_ids p_args (AList.updates v_ids v_args [])
                 in Inr (rs, fold (substitute_heap symbol_table) (map snd rs) h1))))"

text \<open>Two notions for the statements about the store. The nodes from address \<open>n\<close> on
  are closed when their children are at \<open>n\<close> or above; and a store continues \<open>h0\<close>
  when it still holds \<open>h0\<close> in its first addresses and the nodes after them are
  closed.\<close>

definition closed_above :: "nat \<Rightarrow> store \<Rightarrow> bool" where
  "closed_above n h \<longleftrightarrow>
     (\<forall>a. n \<le> a \<and> a < length h \<longrightarrow> list_all (\<lambda>c. n \<le> c) (children (h ! a)))"

definition continues :: "store \<Rightarrow> store \<Rightarrow> bool" where
  "continues h0 h \<longleftrightarrow>
     length h0 \<le> length h \<and> take (length h0) h = h0 \<and> closed_above (length h0) h"

definition roots_from :: "nat \<Rightarrow> (string \<times> HRule) list \<Rightarrow> bool" where
  "roots_from n rs \<longleftrightarrow>
     list_all (\<lambda>(k, r). case h_expression r of None \<Rightarrow> True | Some a \<Rightarrow> n \<le> a) rs"

text \<open>What the renaming does to a name and to a node.\<close>

definition rename_name :: "(string \<times> string) list \<Rightarrow> string \<Rightarrow> string" where
  "rename_name tbl n =
     (if n \<in> set (map fst tbl) then (case map_of tbl n of Some n' \<Rightarrow> n' | None \<Rightarrow> n) else n)"

fun renamed_node :: "(string \<times> string) list \<Rightarrow> hnode \<Rightarrow> hnode" where
  "renamed_node tbl (HSymbol n) = HSymbol (rename_name tbl n)"
| "renamed_node tbl x = x"

text \<open>The addresses of the nodes of all trees of a list of rules.\<close>

definition rule_nodes :: "store \<Rightarrow> HRule \<Rightarrow> nat list" where
  "rule_nodes h r = (case h_expression r of None \<Rightarrow> [] | Some a \<Rightarrow> nodes_of h a)"

text \<open>Two notions for the comparison of the constructor on the store with the
  constructor on values. The rules of a list are separate in a store when the tree of
  each consists of nodes from address \<open>n\<close> on, each used once, and no node belongs to
  the trees of two rules; the roots of a list of rules are below \<open>n\<close> when each
  expression has its root at an address smaller than \<open>n\<close>.\<close>

definition separate :: "nat \<Rightarrow> store \<Rightarrow> HRule list \<Rightarrow> bool" where
  "separate n h rs \<longleftrightarrow>
     (\<forall>j < length rs. distinct (rule_nodes h (rs ! j)) \<and> set (rule_nodes h (rs ! j)) \<subseteq> {n..<length h}
        \<and> (case h_expression (rs ! j) of None \<Rightarrow> True | Some a \<Rightarrow> a < length h))
     \<and> (\<forall>j < length rs. \<forall>j' < length rs. j \<noteq> j'
          \<longrightarrow> set (rule_nodes h (rs ! j)) \<inter> set (rule_nodes h (rs ! j')) = {})"

definition roots_below :: "nat \<Rightarrow> (string \<times> HRule) list \<Rightarrow> bool" where
  "roots_below n rs \<longleftrightarrow>
     list_all (\<lambda>(k, r). case h_expression r of None \<Rightarrow> True | Some a \<Rightarrow> a < n) rs"

section \<open>Sample inputs\<close>

text \<open>Stand-ins for the external services on the sample inputs: \<open>math.parse\<close> and
  \<open>toString\<close> as a finite table of texts and their trees, an evaluator for
  symbols, constants and the arithmetic operators, and an integrator that reports the
  initial state at both ends of the interval. The general theorems quantify over all
  services; these instances only serve to run them.\<close>

definition parse_of :: "(string \<times> node) list \<Rightarrow> string \<Rightarrow> node" where
  "parse_of tbl txt = (case map_of tbl txt of Some e \<Rightarrow> e | None \<Rightarrow> SymbolNode txt)"

definition toString_of :: "(string \<times> node) list \<Rightarrow> node \<Rightarrow> string" where
  "toString_of tbl e = (case map_of (map (\<lambda>(t, n). (n, t)) tbl) e of Some t \<Rightarrow> t | None \<Rightarrow> node_name e)"

definition apply_fn :: "string \<Rightarrow> jsnum list \<Rightarrow> error + jsnum" where
  "apply_fn fn vs =
     (if fn = ''add'' \<and> length vs = 2 then Inr (js_add (vs ! 0) (vs ! 1))
      else if fn = ''subtract'' \<and> length vs = 2 then Inr (js_sub (vs ! 0) (vs ! 1))
      else if fn = ''multiply'' \<and> length vs = 2
        then Inr (case (vs ! 0, vs ! 1) of (Some u, Some v) \<Rightarrow> Some (u * v) | _ \<Rightarrow> None)
      else if fn = ''unaryMinus'' \<and> length vs = 1 then Inr (map_option uminus (vs ! 0))
      else Inl TypeError)"

fun eval_node :: "node \<Rightarrow> (string \<rightharpoonup> jsnum) \<Rightarrow> error + jsnum"
  and eval_args :: "node list \<Rightarrow> (string \<rightharpoonup> jsnum) \<Rightarrow> error + jsnum list" where
  "eval_node (SymbolNode n) sc = (case sc n of None \<Rightarrow> Inl (UndefinedSymbol n) | Some v \<Rightarrow> Inr v)"
| "eval_node (ConstantNode c) sc = Inr (Some c)"
| "eval_node (OperatorNode op fn as) sc =
     (case eval_args as sc of Inl e \<Rightarrow> Inl e | Inr vs \<Rightarrow> apply_fn fn vs)"
| "eval_node (OtherNode ty as) sc = Inl TypeError"
| "eval_args [] sc = Inr []"
| "eval_args (a # as) sc =
     (case eval_node a sc of
        Inl e \<Rightarrow> Inl e
      | Inr v \<Rightarrow> (case eval_args as sc of Inl e \<Rightarrow> Inl e | Inr vs \<Rightarrow> Inr (v # vs)))"

definition hold_integrator :: integrator where
  "hold_integrator t0 tf y0 f =
     (case f t0 y0 of
        Inl e \<Rightarrow> Inl e
      | Inr dy \<Rightarrow> Inr \<lparr>sol_x = [Some t0, Some tf], sol_y = [y0, y0]\<rparr>)"

text \<open>\<open>-k * a\<close>, the rule of a first-order decay, and \<open>r * a - r * a * a / K\<close>, logistic
  growth written out.\<close>

definition decay_rule :: node where
  "decay_rule =
     OperatorNode ''*'' ''multiply'' [OperatorNode ''-'' ''unaryMinus'' [SymbolNode ''k''], SymbolNode ''a'']"

definition logistic_rule :: node where
  "logistic_rule =
     OperatorNode ''-'' ''subtract''
       [OperatorNode ''*'' ''multiply'' [SymbolNode ''r'', SymbolNode ''a''],
        OperatorNode ''/'' ''divide''
          [OperatorNode ''*'' ''multiply''
             [OperatorNode ''*'' ''multiply'' [SymbolNode ''r'', SymbolNode ''a''], SymbolNode ''a''],
           SymbolNode ''K'']]"

definition decay_rule_A :: node where
  "decay_rule_A =
     OperatorNode ''*'' ''multiply'' [OperatorNode ''-'' ''unaryMinus'' [SymbolNode ''k''], SymbolNode ''A'']"

definition sample_texts :: "(string \<times> node) list" where
  "sample_texts = [(''0'', ConstantNode 0), (''-k * a'', decay_rule)]"

definition decay :: Interaction where
  "decay = \<lparr>i_name = ''decay'', rules = [(''a'', \<lparr>r_name = None, r_expression = Some decay_rule\<rparr>)]\<rparr>"

definition logistic :: Interaction where
  "logistic = \<lparr>i_name = ''logistic'', rules = [(''a'', \<lparr>r_name = None, r_expression = Some logistic_rule\<rparr>)]\<rparr>"

text \<open>A system with the species \<open>A\<close> (10), the parameter \<open>k\<close> (0.5) and the definition
  \<open>decay\<close>.\<close>

definition decay_System :: System where
  "decay_System =
     (addParameter (addSpecies empty_System ''A'' (Some 10) None) ''k'' (Some (1/2)) None)
       \<lparr>interactions := [(''decay'', decay)]\<rparr>"

text \<open>The same system after \<open>addInteraction('decay', ['A'], ['k'])\<close> and after
  \<open>compile()\<close>.\<close>

definition decay_bound :: System where
  "decay_bound =
     (case addInteraction (parse_of sample_texts) (toString_of sample_texts) decay_System ''decay'' [''A''] [''k''] of
        Inr s \<Rightarrow> s
      | Inl e \<Rightarrow> decay_System)"

definition decay_compiled :: System where
  "decay_compiled =
     (case compile (parse_of sample_texts) decay_bound of Inr s \<Rightarrow> s | Inl e \<Rightarrow> decay_bound)"

text \<open>Two buffers with the samples \<open>0, 10, 20, 25\<close> and \<open>0, 1, ..., 25\<close>.\<close>

definition coarse_buffer :: Simulation where
  "coarse_buffer =
     \<lparr>time = [Some 0, Some 10, Some 20, Some 25],
      trajectory = [(''A'', Some [Some 1, Some 2, Some 3, Some 4])]\<rparr>"

definition unit_buffer :: Simulation where
  "unit_buffer =
     \<lparr>time = map (\<lambda>i. Some (real i)) [0..<26],
      trajectory = [(''A'', Some (map (\<lambda>i. Some (2 * real i)) [0..<26]))]\<rparr>"

text \<open>The sample system with a species that has the id of the parameter \<open>k\<close>, compiled.\<close>

definition shadow_System :: System where
  "shadow_System =
     (case compile (parse_of sample_texts) (addSpecies decay_bound ''k'' (Some 7) None) of
        Inr s \<Rightarrow> s
      | Inl e \<Rightarrow> decay_bound)"







text \<open>The rule \<open>-k * a\<close> of \<open>decay\<close> in a store (root at address 3), the rules of the
  definition pointing into it, the store after the constructor has re-parsed the rule
  for \<open>new Interaction(decay, ['A'], ['k'])\<close> (the root of the instance's rule at
  address 7), and the store after the renaming.\<close>

definition decay_store :: store where
  "decay_store =
     [HSymbol ''k'', HOperator ''-'' ''unaryMinus'' [0], HSymbol ''a'', HOperator ''*'' ''multiply'' [1, 2]]"

definition decay_hrules :: "(string \<times> HRule) list" where
  "decay_hrules = [(''a'', \<lparr>h_name = None, h_expression = Some 3\<rparr>)]"

definition decay_store_cloned :: store where
  "decay_store_cloned =
     [HSymbol ''k'', HOperator ''-'' ''unaryMinus'' [0], HSymbol ''a'', HOperator ''*'' ''multiply'' [1, 2],
      HSymbol ''k'', HOperator ''-'' ''unaryMinus'' [4], HSymbol ''a'', HOperator ''*'' ''multiply'' [5, 6]]"

definition decay_store_bound :: store where
  "decay_store_bound =
     [HSymbol ''k'', HOperator ''-'' ''unaryMinus'' [0], HSymbol ''a'', HOperator ''*'' ''multiply'' [1, 2],
      HSymbol ''k'', HOperator ''-'' ''unaryMinus'' [4], HSymbol ''A'', HOperator ''*'' ''multiply'' [5, 6]]"

text \<open>The system after \<open>addSpecies('A', 10)\<close> and \<open>removeSpecies('Z')\<close>: no species is
  called \<open>Z\<close>, \<open>indexOf\<close> yields \<open>-1\<close>, and \<open>model.splice(-1, 1)\<close> drops the last
  model slot.\<close>

definition popped_System :: System where
  "popped_System = removeSpecies (addSpecies empty_System ''A'' (Some 10) None) ''Z''"

section \<open>addSpecies on a registered identifier\<close>

lemma array_set_length: "length (array_set xs i v) = max (length xs) (Suc i)"
  by (simp add: array_set_def)

lemma array_get_array_set: "array_get (array_set xs i v) i = v"
  by (simp add: array_set_def array_get_def nth_append)

lemma update_existing_keys:
  "k \<in> set (map fst al) \<Longrightarrow> map fst (AList.update k v al) = map fst al"
  by (simp add: update_keys)

text \<open>
  Claim C9, amended. For every system, \<open>addSpecies(identifier, v, name)\<close> with a
  registered identifier replaces the Species object by a fresh one (value \<open>v\<close>, unset
  rate law), keeps the keys, their order and their number, leaves every other species
  as it was, and assigns \<open>null\<close> to the model slot at index (species count - 1): a
  model that has at least as many slots as there are species keeps its length and has
  that slot overwritten; a shorter model is extended up to that index. The model never
  gets a slot beyond the species count.
\<close>

theorem addSpecies_registered:
  assumes "identifier \<in> set (map fst (species s))"
  shows "map fst (species (addSpecies s identifier v name)) = map fst (species s)
    \<and> length (species (addSpecies s identifier v name)) = length (species s)
    \<and> map_of (species (addSpecies s identifier v name)) identifier
        = Some \<lparr>sp_name = name, sp_value = v, sp_rate_law = \<lparr>r_name = None, r_expression = None\<rparr>\<rparr>
    \<and> (\<forall>k. k \<noteq> identifier \<longrightarrow>
          map_of (species (addSpecies s identifier v name)) k = map_of (species s) k)
    \<and> model (addSpecies s identifier v name) = array_set (model s) (length (species s) - 1) None
    \<and> array_get (model (addSpecies s identifier v name)) (length (species s) - 1) = None
    \<and> length (model (addSpecies s identifier v name)) = max (length (model s)) (length (species s))
    \<and> (length (species s) \<le> length (model s) \<longrightarrow>
          model (addSpecies s identifier v name) = (model s)[length (species s) - 1 := None])"
proof -
  let ?sp = "AList.update identifier (new_Species v name) (species s)"
  have keys: "map fst ?sp = map fst (species s)"
    using assms by (rule update_existing_keys)
  have len: "length ?sp = length (species s)"
    using keys by (metis length_map)
  have pos: "0 < length (species s)"
    using assms by (cases "species s") auto
  have sp: "species (addSpecies s identifier v name) = ?sp"
    by (simp add: addSpecies_def Let_def)
  have md: "model (addSpecies s identifier v name) = array_set (model s) (length (species s) - 1) None"
    by (simp add: addSpecies_def Let_def len)
  have look: "map_of ?sp identifier = Some (new_Species v name)"
    by (simp add: update_conv')
  have other: "\<forall>k. k \<noteq> identifier \<longrightarrow> map_of ?sp k = map_of (species s) k"
    by (simp add: update_conv')
  have mlen: "length (array_set (model s) (length (species s) - 1) None)
      = max (length (model s)) (length (species s))"
    using pos by (simp add: array_set_length)
  have inside: "length (species s) \<le> length (model s) \<longrightarrow>
      array_set (model s) (length (species s) - 1) None = (model s)[length (species s) - 1 := None]"
  proof
    assume "length (species s) \<le> length (model s)"
    with pos have "length (species s) - 1 < length (model s)"
      by arith
    then show "array_set (model s) (length (species s) - 1) None = (model s)[length (species s) - 1 := None]"
      by (simp add: array_set_def)
  qed
  show ?thesis
    using keys len look other mlen inside
    by (simp add: sp md array_get_array_set new_Species_def new_Rule_def)
qed

theorem addSpecies_registered_witness:
  "map fst (species (addSpecies decay_System ''A'' (Some 3) None)) = [''A'']
    \<and> map_of (species (addSpecies decay_System ''A'' (Some 3) None)) ''A''
        = Some \<lparr>sp_name = None, sp_value = Some 3, sp_rate_law = \<lparr>r_name = None, r_expression = None\<rparr>\<rparr>
    \<and> model (addSpecies decay_System ''A'' (Some 3) None) = [None]"
proof -
  have sp: "species decay_System = [(''A'', new_Species (Some 10) None)]"
    by (simp add: decay_System_def addParameter_def addSpecies_def empty_System_def Let_def)
  have md: "model decay_System = [None]"
    by (simp add: decay_System_def addParameter_def addSpecies_def empty_System_def Let_def array_set_def)
  have h: "''A'' \<in> set (map fst (species decay_System))"
    by (simp add: sp)
  show ?thesis
    using addSpecies_registered [OF h, of "Some 3" None]
    by (simp add: sp md array_set_def)
qed

text \<open>For contrast: a new identifier goes to the end of the species and gets the slot
  at the old species count.\<close>

lemma addSpecies_fresh:
  assumes "identifier \<notin> set (map fst (species s))"
  shows "map fst (species (addSpecies s identifier v name)) = map fst (species s) @ [identifier]"
    and "model (addSpecies s identifier v name) = array_set (model s) (length (species s)) None"
proof -
  let ?sp = "AList.update identifier (new_Species v name) (species s)"
  have keys: "map fst ?sp = map fst (species s) @ [identifier]"
    using assms by (simp add: update_keys)
  then have "length (map fst ?sp) = Suc (length (species s))"
    by simp
  then have len: "length ?sp = Suc (length (species s))"
    by simp
  show "map fst (species (addSpecies s identifier v name)) = map fst (species s) @ [identifier]"
    using keys by (simp add: addSpecies_def Let_def)
  show "model (addSpecies s identifier v name) = array_set (model s) (length (species s)) None"
    using len by (simp add: addSpecies_def Let_def)
qed

text \<open>
  Claim C9, as stated, has the slot at index (species count - 1) overwritten rather
  than a slot appended, for every system. After \<open>addSpecies('A', 10)\<close> and
  \<open>removeSpecies('Z')\<close> the system has the species \<open>A\<close> and an empty model;
  \<open>addSpecies('A', 3)\<close> then appends a slot to the model.
\<close>

lemma popped_System_fields:
  "species popped_System = [(''A'', new_Species (Some 10) None)]"
  "model popped_System = []"
  by (simp_all add: popped_System_def removeSpecies_def removeInteractionsBySpecies_def addSpecies_def
      empty_System_def Let_def array_set_def indexOf_def splice1_def)

theorem addSpecies_registered_appends_slot:
  "reachable_System popped_System
   \<and> map fst (species popped_System) = [''A'']
   \<and> model popped_System = []
   \<and> map fst (species (addSpecies popped_System ''A'' (Some 3) None)) = [''A'']
   \<and> model (addSpecies popped_System ''A'' (Some 3) None) = [None]"
proof -
  have "reachable_System (addSpecies empty_System ''A'' (Some 10) None)"
    by (intro reachable_System.species_added reachable_System.initial)
  then have "reachable_System popped_System"
    unfolding popped_System_def by (rule reachable_System.species_removed)
  then show ?thesis
    by (simp add: popped_System_fields addSpecies_def Let_def array_set_def)
qed

section \<open>parameters()\<close>

lemma filter_node_conj:
  "filter_node (\<lambda>n. P n \<and> Q n) e = filter Q (filter_node P e)"
  by (induction P e rule: filter_node.induct) (auto simp: filter_concat comp_def cong: map_cong)

lemma collected_names:
  "map node_name (filter_node (\<lambda>n. is_SymbolNode n \<and> node_name n \<notin> set vs \<and> node_name n \<notin> set ps) e)
     = filter (\<lambda>n. n \<notin> set vs \<and> n \<notin> set ps) (symbols_of e)"
  by (simp add: symbols_of_def filter_node_conj filter_map comp_def)

lemma parameters_loop_set:
  "set (parameters_loop vs rs ps)
     = set ps \<union> ((\<Union>(k, r) \<in> set rs. case r_expression r of None \<Rightarrow> {} | Some e \<Rightarrow> set (symbols_of e)) - set vs)"
proof (induction vs rs ps rule: parameters_loop.induct)
  case (1 vs ps)
  then show ?case by simp
next
  case (2 vs r_id r rs ps)
  show ?case
  proof (cases "r_expression r")
    case None
    with 2 show ?thesis by simp
  next
    case (Some e)
    with 2 show ?thesis
      by (simp add: collected_names) blast
  qed
qed

text \<open>\<open>parameters()\<close> returns the non-variable symbols of the rules, possibly repeated.\<close>

lemma parameters_of_set:
  "set (parameters_of i)
     = (\<Union>(k, r) \<in> set (rules i). case r_expression r of None \<Rightarrow> {} | Some e \<Rightarrow> set (symbols_of e))
         - set (variables i)"
  by (simp add: parameters_of_def parameters_loop_set)

text \<open>It repeats a name only if the name is repeated within one rule.\<close>

lemma parameters_loop_distinct:
  assumes "distinct ps"
    and "\<forall>(k, r) \<in> set rs. \<forall>e. r_expression r = Some e \<longrightarrow> distinct (filter (\<lambda>n. n \<notin> set vs) (symbols_of e))"
  shows "distinct (parameters_loop vs rs ps)"
  using assms
proof (induction vs rs ps rule: parameters_loop.induct)
  case (1 vs ps)
  then show ?case by simp
next
  case (2 vs r_id r rs ps)
  show ?case
  proof (cases "r_expression r")
    case None
    with 2 show ?thesis by simp
  next
    case (Some e)
    let ?new = "filter (\<lambda>n. n \<notin> set vs \<and> n \<notin> set ps) (symbols_of e)"
    have "distinct (filter (\<lambda>n. n \<notin> set vs) (symbols_of e))"
      using "2.prems"(2) Some by auto
    then have "distinct (filter (\<lambda>n. n \<notin> set ps) (filter (\<lambda>n. n \<notin> set vs) (symbols_of e)))"
      by (rule distinct_filter)
    then have "distinct ?new"
      by (simp add: conj_commute)
    with "2.prems"(1) have d: "distinct (ps @ ?new)"
      by auto
    have rest: "\<forall>(k, r) \<in> set rs. \<forall>e. r_expression r = Some e \<longrightarrow>
        distinct (filter (\<lambda>n. n \<notin> set vs) (symbols_of e))"
      using "2.prems"(2) by auto
    from "2.IH"(2) [OF Some] d rest show ?thesis
      by (simp add: Some collected_names)
  qed
qed

lemma parameters_of_distinct:
  assumes "\<forall>(k, r) \<in> set (rules i). \<forall>e. r_expression r = Some e \<longrightarrow>
      distinct (filter (\<lambda>n. n \<notin> set (variables i)) (symbols_of e))"
  shows "distinct (parameters_of i)"
  unfolding parameters_of_def using assms by (intro parameters_loop_distinct) simp_all

text \<open>
  Claim C4. \<open>parameters()\<close> is to list every non-variable symbol of the rules once, in
  first-seen order. The filter callback only excludes the names collected from earlier
  rules, so a parameter that occurs twice in one rule is listed twice: for the
  definition \<open>logistic\<close> with the one rule \<open>a: r * a - r * a * a / K\<close> the result is
  \<open>r, r, K\<close>.
\<close>

theorem parameters_repeats_within_rule:
  "parameters_of logistic = [''r'', ''r'', ''K''] \<and> \<not> distinct (parameters_of logistic)"
  by (simp add: parameters_of_def logistic_def logistic_rule_def variables_def)

section \<open>The sample system\<close>

lemma decay_System_fields:
  "species decay_System = [(''A'', new_Species (Some 10) None)]"
  "parameters decay_System = [(''k'', new_Parameter (Some (1/2)) None)]"
  "interactions decay_System = [(''decay'', decay)]"
  "live_interactions decay_System = []"
  "model decay_System = [None]"
  by (simp_all add: decay_System_def addParameter_def addSpecies_def empty_System_def Let_def array_set_def)

lemma parameters_of_decay: "parameters_of decay = [''k'']"
  by (simp add: parameters_of_def decay_def decay_rule_def variables_def)

lemma reparse_decay: "parse_of sample_texts (toString_of sample_texts decay_rule) = decay_rule"
  by (simp add: parse_of_def toString_of_def sample_texts_def decay_rule_def)

lemma decay_fields:
  "i_name decay = ''decay''"
  "rules decay = [(''a'', \<lparr>r_name = None, r_expression = Some decay_rule\<rparr>)]"
  "variables decay = [''a'']"
  by (simp_all add: decay_def variables_def)

lemma Interaction_new_decay_wrong_arity:
  "Interaction_new (parse_of sample_texts) (toString_of sample_texts) decay_System decay [''A''] []
     = Inr \<lparr>i_name = ''decay'', rules = [(''A'', \<lparr>r_name = None, r_expression = Some decay_rule\<rparr>)]\<rparr>"
  by (simp add: Interaction_new_def InteractionDefinition_def decay_System_fields parameters_of_decay
      clone_rule_def Rule_set_def new_Rule_def reparse_decay decay_fields Let_def)

lemma substitute_decay_rule:
  "substitute [(''a'', ''A''), (''k'', ''k'')] decay_rule = decay_rule_A"
  by (simp add: decay_rule_def decay_rule_A_def)

lemma decay_bound_eq:
  "decay_bound = decay_System\<lparr>live_interactions :=
     [\<lparr>i_name = ''decay'', rules = [(''A'', \<lparr>r_name = None, r_expression =
        Some decay_rule_A\<rparr>)]\<rparr>]\<rparr>"
  by (simp add: decay_bound_def addInteraction_def decay_System_fields parameters_of_decay
      Interaction_new_def InteractionDefinition_def clone_rule_def Rule_set_def new_Rule_def
      reparse_decay decay_fields Let_def substitute_rule_def substitute_decay_rule)

lemma decay_compiled_eq:
  "decay_compiled = decay_bound
     \<lparr>species := [(''A'', \<lparr>sp_name = None, sp_value = Some 10,
          sp_rate_law = \<lparr>r_name = None, r_expression = Some decay_rule_A\<rparr>\<rparr>)],
      model := [Some (Compiled decay_rule_A)]\<rparr>"
  by (simp add: decay_compiled_def compile_def decay_bound_eq decay_System_fields aggregate_def
      variables_def add_term_def reset_rate_law_def new_Species_def new_Rule_def clone_def
      compile_model_def compile_rate_law_def indexOf_def array_set_def)

lemma decay_compiled_fields:
  "species decay_compiled = [(''A'', \<lparr>sp_name = None, sp_value = Some 10,
          sp_rate_law = \<lparr>r_name = None, r_expression = Some decay_rule_A\<rparr>\<rparr>)]"
  "parameters decay_compiled = [(''k'', new_Parameter (Some (1/2)) None)]"
  "model decay_compiled = [Some (Compiled decay_rule_A)]"
  by (simp_all add: decay_compiled_eq decay_bound_eq decay_System_fields)

lemma decay_dY: "dY eval_node decay_compiled t [Some 10] = Inr [Some (- 5)]"
  by (simp add: dY_def dY_scope_def decay_compiled_fields keys_at_def js_key_def array_get_def
      decay_rule_A_def apply_fn_def new_Parameter_def)

lemma decay_integrates:
  "hold_integrator 0 1 [Some 10] (dY eval_node decay_compiled)
     = Inr \<lparr>sol_x = [Some 0, Some 1], sol_y = [[Some 10], [Some 10]]\<rparr>"
  by (simp add: hold_integrator_def decay_dY)

section \<open>addInteraction on a call that has to be rejected\<close>

text \<open>Whenever \<open>addInteraction\<close> returns, it has appended exactly one instance and
  changed nothing else, whether or not the arguments were valid: the early \<open>return\<close>
  of the constructor does not keep \<open>new\<close> from yielding the object.\<close>

lemma addInteraction_appends:
  assumes "addInteraction parse toStr s ident v_args p_args = Inr s'"
  shows "\<exists>i. s' = s\<lparr>live_interactions := live_interactions s @ [i]\<rparr>"
  using assms by (auto simp: addInteraction_def split: option.splits sum.splits)

text \<open>The instance registered by a rejected call carries the re-parsed rules of the
  definition, not substituted.\<close>

lemma Interaction_new_rejected:
  assumes "must_reject s base v_args p_args"
    and "Interaction_new parse toStr s base v_args p_args = Inr i"
  shows "for_each (clone_rule parse toStr (rules base)) [0..<length (rules base)]
           (rules (InteractionDefinition (i_name base) v_args)) = Inr (rules i)"
  using assms
  by (auto simp: Interaction_new_def must_reject_def Let_def split: sum.splits if_splits)

text \<open>
  Claim C1. A call of \<open>addInteraction\<close> that has to be rejected is to leave the live
  instance count, the species, the parameters and the rate laws as they were. On the
  sample system, \<open>addInteraction('decay', ['A'], [])\<close> passes no parameter where the
  definition has one (\<open>k\<close>); the call returns and the system has one live instance
  more than before, the half-built instance with the unsubstituted rule.
\<close>

theorem addInteraction_rejected_call_registers:
  "length ([] :: string list) \<noteq> length (parameters_of decay)
   \<and> live_interactions decay_System = []
   \<and> addInteraction (parse_of sample_texts) (toString_of sample_texts) decay_System ''decay'' [''A''] []
       = Inr (decay_System\<lparr>live_interactions :=
           [\<lparr>i_name = ''decay'', rules = [(''A'', \<lparr>r_name = None, r_expression = Some decay_rule\<rparr>)]\<rparr>]\<rparr>)"
  by (simp add: addInteraction_def decay_System_fields parameters_of_decay Interaction_new_decay_wrong_arity)

section \<open>simulate\<close>

text \<open>\<open>simulate\<close> hands \<open>Object.keys(this.species)\<close> to the Simulation constructor,
  which expects the system: the trajectory stays empty and the write-back loop raises
  on the first species. With at least one species \<open>simulate\<close> never returns.\<close>

lemma for_each_first_error:
  "f i st = Inl e \<Longrightarrow> for_each f (i # ix) st = Inl e"
  by simp




text \<open>
  Claim C5. \<open>simulate(t0, tf)\<close> is to return the trajectory keyed by species id and
  to leave every species at the last sample of its trajectory. On the compiled sample
  system the initial vector is the current value of \<open>A\<close> and the integrator returns
  a solution, but \<open>simulate(0, 1)\<close> raises a TypeError instead of returning.
\<close>

theorem simulate_raises:
  "map (\<lambda>(sp, spc). sp_value spc) (species decay_compiled) = [Some 10]
   \<and> hold_integrator 0 1 [Some 10] (dY eval_node decay_compiled)
       = Inr \<lparr>sol_x = [Some 0, Some 1], sol_y = [[Some 10], [Some 10]]\<rparr>
   \<and> simulate (parse_of sample_texts) eval_node hold_integrator decay_compiled 0 1 = Inl TypeError"
proof -
  have m: "fold (\<lambda>(i_sp, sp, spc) m. array_set m i_sp (Some (compile_rate_law (parse_of sample_texts) spc)))
             (enumerate 0 (species decay_compiled)) (model decay_compiled) = model decay_compiled"
    by (simp add: decay_compiled_fields array_set_def compile_rate_law_def)
  have s1: "decay_compiled\<lparr>model :=
      fold (\<lambda>(i_sp, sp, spc) m. array_set m i_sp (Some (compile_rate_law (parse_of sample_texts) spc)))
        (enumerate 0 (species decay_compiled)) (model decay_compiled)\<rparr> = decay_compiled"
    by (simp only: m) simp
  have "simulate (parse_of sample_texts) eval_node hold_integrator decay_compiled 0 1 = Inl TypeError"
    unfolding simulate_def Let_def s1
    by (simp add: decay_integrates decay_compiled_fields
        Simulation_new_def numeric_transpose_def write_back_def lookup_trajectory_def)
  then show ?thesis
    by (simp add: decay_integrates decay_compiled_fields)
qed

section \<open>indexOf\<close>

lemma index_from_absent: "x \<notin> set xs \<Longrightarrow> index_from xs x i = - 1"
  by (induction xs arbitrary: i) auto

lemma index_from_present:
  "x \<in> set xs \<Longrightarrow> \<exists>j < length xs. index_from xs x i = int (i + j) \<and> xs ! j = x \<and> (\<forall>l < j. xs ! l \<noteq> x)"
proof (induction xs arbitrary: i)
  case Nil
  then show ?case by simp
next
  case (Cons y ys)
  show ?case
  proof (cases "y = x")
    case True
    then show ?thesis by auto
  next
    case False
    with Cons.prems have "x \<in> set ys" by simp
    from Cons.IH [OF this, of "Suc i"] obtain j where j: "j < length ys"
      "index_from ys x (Suc i) = int (Suc i + j)" "ys ! j = x" "\<forall>l < j. ys ! l \<noteq> x"
      by blast
    have "\<forall>l < Suc j. (y # ys) ! l \<noteq> x"
      using False j(4) by (auto simp: nth_Cons split: nat.splits)
    with False j show ?thesis
      by (intro exI [of _ "Suc j"]) auto
  qed
qed

lemma indexOf_absent: "x \<notin> set xs \<Longrightarrow> indexOf xs x = - 1"
  by (simp add: indexOf_def index_from_absent)

lemma indexOf_present:
  assumes "x \<in> set xs"
  shows "\<exists>j < length xs. indexOf xs x = int j \<and> xs ! j = x \<and> (\<forall>l < j. xs ! l \<noteq> x)"
  using index_from_present [OF assms, of 0] by (simp add: indexOf_def)


section \<open>trim\<close>

text \<open>\<open>trim\<close> looks the cutoff up with \<open>indexOf\<close>: when no sample has exactly the
  cutoff time, the index is \<open>-1\<close> and nothing is dropped.\<close>

lemma trim_not_found:
  assumes "js_sub (last_elem (time sim)) (Some bsize) = Some t0" "Some t0 \<notin> set (time sim)"
  shows "trim sim bsize = Inr sim"
  using assms by (simp add: trim_def num_indexOf_def indexOf_absent option.map_ident map_idI split_beta cong: map_cong)

text \<open>The example of the specification: samples at \<open>0, 1, ..., 25\<close> and a window
  of 10 leave the samples from 15 on.\<close>

lemma unit_trim:
  "trim unit_buffer 10 =
     Inr \<lparr>time = map (\<lambda>i. Some (real i)) [15..<26],
          trajectory = [(''A'', Some (map (\<lambda>i. Some (2 * real i)) [15..<26]))]\<rparr>"
  by (simp add: trim_def unit_buffer_def js_sub_def last_elem_def num_indexOf_def indexOf_def upt_rec [of _ "numeral _"])

text \<open>
  Claim C7. After \<open>trim(buffer_size)\<close> exactly the leading samples older than
  \<open>latest_time - buffer_size\<close> are to be gone. For the buffer with the times
  \<open>0, 10, 20, 25\<close> and the window 10 the cutoff is 15, the first sample has time 0,
  and \<open>trim\<close> returns the buffer unchanged.
\<close>

theorem trim_keeps_stale_samples:
  "js_sub (last_elem (time coarse_buffer)) (Some 10) = Some 15
   \<and> first_elem (time coarse_buffer) = Some 0
   \<and> trim coarse_buffer 10 = Inr coarse_buffer"
  by (simp add: trim_def coarse_buffer_def js_sub_def last_elem_def first_elem_def num_indexOf_def indexOf_def)

section \<open>The derivative function\<close>

text \<open>A loop of assignments \<open>scope[k] = v\<close> over a key-value list adds the list to the
  scope, later entries winning.\<close>

lemma fold_upd_alist:
  "fold (\<lambda>(k, v) sc. sc(k \<mapsto> f v)) kvs sc = sc ++ map_of (rev (map (\<lambda>(k, v). (k, f v)) kvs))"
proof (induction kvs arbitrary: sc)
  case Nil
  then show ?case by simp
next
  case (Cons kv kvs)
  obtain k v where kv: "kv = (k, v)" by (cases kv)
  let ?F = "\<lambda>(k, v) sc. sc(k \<mapsto> f v)"
  let ?g = "\<lambda>(k, v). (k, f v)"
  have "fold ?F (kv # kvs) sc = fold ?F kvs (sc(k \<mapsto> f v))"
    unfolding kv by (simp only: fold_simps comp_apply prod.case)
  also have "\<dots> = sc(k \<mapsto> f v) ++ map_of (rev (map ?g kvs))"
    by (rule Cons.IH)
  also have "\<dots> = sc ++ (map_of [(k, f v)] ++ map_of (rev (map ?g kvs)))"
    by (rule ext) (simp add: map_add_def split: option.splits)
  also have "\<dots> = sc ++ map_of (rev (map ?g (kv # kvs)))"
    by (simp only: kv list.map prod.case rev.simps map_of_append)
  finally show ?case .
qed

lemma map_of_rev_distinct:
  "distinct (map fst kvs) \<Longrightarrow> map_of (rev kvs) = map_of kvs"
proof (induction kvs)
  case Nil
  then show ?case by simp
next
  case (Cons kv kvs)
  obtain k v where kv: "kv = (k, v)" by (cases kv)
  from Cons.prems have nk: "k \<notin> fst ` set kvs" and d: "distinct (map fst kvs)"
    by (auto simp: kv)
  have "map_of (rev (kv # kvs)) = map_of [(k, v)] ++ map_of (rev kvs)"
    by (simp add: kv map_of_append)
  also have "\<dots> = map_of [(k, v)] ++ map_of kvs"
    using Cons.IH [OF d] by simp
  also have "\<dots> = map_of (kv # kvs)"
  proof (rule ext)
    fix x
    have "map_of kvs k = None"
      using nk by (simp add: map_of_eq_None_iff)
    then show "(map_of [(k, v)] ++ map_of kvs) x = map_of (kv # kvs) x"
      by (auto simp: kv map_add_def split: option.splits)
  qed
  finally show ?case .
qed

text \<open>The species loop of the scope, as a fold over the pairs of ids and values.\<close>

lemma species_loop_as_zip:
  assumes "length y = length ids"
  shows "fold (\<lambda>i_y sc. sc(js_key (keys_at ids i_y) \<mapsto> y ! i_y)) [0..<length y] sc
     = fold (\<lambda>(k, v) sc. sc(k \<mapsto> v)) (zip ids y) sc"
proof -
  have z: "zip ids y = map (\<lambda>i. (ids ! i, y ! i)) [0..<length y]"
    using assms by (intro nth_equalityI) auto
  have "fold (\<lambda>(k, v) sc. sc(k \<mapsto> v)) (zip ids y) sc
      = fold ((\<lambda>(k, v) sc. sc(k \<mapsto> v)) \<circ> (\<lambda>i. (ids ! i, y ! i))) [0..<length y] sc"
    by (simp only: z fold_map)
  also have "\<dots> = fold (\<lambda>i_y sc. sc(js_key (keys_at ids i_y) \<mapsto> y ! i_y)) [0..<length y] sc"
    using assms by (intro fold_cong) (auto simp: keys_at_def js_key_def)
  finally show ?thesis by simp
qed

lemma dY_scope_eq:
  assumes "distinct (map fst (species system))" "distinct (map fst (parameters system))"
    and "length y = length (species system)"
  shows "dY_scope system y
    = map_of (zip (map fst (species system)) y)
        ++ map_of (map (\<lambda>(p, par). (p, par_value par)) (parameters system))"
proof -
  let ?ids = "map fst (species system)"
  let ?ps = "map (\<lambda>(p, par). (p, par_value par)) (parameters system)"
  have len: "length y = length ?ids" using assms(3) by simp
  have dz: "distinct (map fst (zip ?ids y))"
    using assms(1) len by (simp add: map_fst_zip)
  have dp: "distinct (map fst ?ps)"
    using assms(2) by (simp add: case_prod_beta comp_def)
  have s0: "fold (\<lambda>i_y sc. sc(js_key (keys_at ?ids i_y) \<mapsto> y ! i_y)) [0..<length y] Map.empty
      = map_of (zip ?ids y)"
    using fold_upd_alist [of "\<lambda>v. v" "zip ?ids y" Map.empty] map_of_rev_distinct [OF dz]
    by (simp add: species_loop_as_zip [OF len])
  show ?thesis
    unfolding dY_scope_def Let_def s0
    using fold_upd_alist [of par_value "parameters system" "map_of (zip ?ids y)"] map_of_rev_distinct [OF dp]
    by simp
qed

lemma map_err_Inr_iff:
  "map_err f xs = Inr ys \<longleftrightarrow> length ys = length xs \<and> (\<forall>i < length xs. f (xs ! i) = Inr (ys ! i))"
proof (induction xs arbitrary: ys)
  case Nil
  then show ?case by auto
next
  case (Cons x xs)
  show ?case
  proof (cases ys)
    case Nil
    then show ?thesis by (auto split: sum.splits)
  next
    case (Cons v vs)
    have "(\<forall>i < Suc (length xs). f ((x # xs) ! i) = Inr ((v # vs) ! i))
        \<longleftrightarrow> f x = Inr v \<and> (\<forall>i < length xs. f (xs ! i) = Inr (vs ! i))"
      by (auto simp: nth_Cons split: nat.splits)
    then show ?thesis
      using Cons.IH [of vs] by (auto simp: Cons split: sum.splits)
  qed
qed

lemma species_loop_agree:
  assumes "\<forall>j \<in> set js. key j = k \<longrightarrow> y ! j = y' ! j" "sc k = sc' k"
  shows "fold (\<lambda>j sc. sc(key j \<mapsto> y ! j)) js sc k = fold (\<lambda>j sc. sc(key j \<mapsto> y' ! j)) js sc' k"
  using assms
proof (induction js arbitrary: sc sc')
  case Nil
  then show ?case by simp
next
  case (Cons j js)
  have "(sc(key j \<mapsto> y ! j)) k = (sc'(key j \<mapsto> y' ! j)) k"
    using Cons.prems by auto
  moreover have "\<forall>j \<in> set js. key j = k \<longrightarrow> y ! j = y' ! j"
    using Cons.prems by simp
  ultimately have "fold (\<lambda>j sc. sc(key j \<mapsto> y ! j)) js (sc(key j \<mapsto> y ! j)) k
      = fold (\<lambda>j sc. sc(key j \<mapsto> y' ! j)) js (sc'(key j \<mapsto> y' ! j)) k"
    by (rule Cons.IH [rotated])
  then show ?case by (simp only: fold_simps comp_apply)
qed

lemma dY_scope_parameter:
  assumes "distinct (map fst (parameters system))" "(p, par) \<in> set (parameters system)"
  shows "dY_scope system y p = Some (par_value par)"
proof -
  let ?ps = "map (\<lambda>(p, par). (p, par_value par)) (parameters system)"
  have dp: "distinct (map fst ?ps)"
    using assms(1) by (simp add: case_prod_beta comp_def)
  have "(p, par_value par) \<in> set ?ps"
    using assms(2) by force
  with dp have "map_of ?ps p = Some (par_value par)"
    by (rule map_of_is_SomeI)
  then show ?thesis
    unfolding dY_scope_def Let_def
    using map_of_rev_distinct [OF dp]
    by (simp add: fold_upd_alist [of par_value "parameters system"])
qed

lemma shadow_System_fields:
  "species shadow_System =
     [(''A'', \<lparr>sp_name = None, sp_value = Some 10,
          sp_rate_law = \<lparr>r_name = None, r_expression = Some decay_rule_A\<rparr>\<rparr>),
      (''k'', \<lparr>sp_name = None, sp_value = Some 7,
          sp_rate_law = \<lparr>r_name = None, r_expression = None\<rparr>\<rparr>)]"
  "parameters shadow_System = [(''k'', new_Parameter (Some (1/2)) None)]"
  "model shadow_System = [Some (Compiled decay_rule_A), Some (Compiled (ConstantNode 0))]"
  by (simp_all add: shadow_System_def compile_def addSpecies_def decay_bound_eq decay_System_fields
      aggregate_def variables_def add_term_def reset_rate_law_def new_Species_def new_Rule_def
      clone_def compile_model_def compile_rate_law_def indexOf_def array_set_def Let_def
      parse_of_def sample_texts_def)

text \<open>
  Claim C6. For a state vector \<open>y\<close> with one entry per species, in the order of the
  species: the scope of \<open>dY\<close> is the species ids zipped with \<open>y\<close>, overlaid with
  every parameter id mapped to the parameter's value; \<open>dY\<close> returns a vector \<open>dy\<close>
  exactly when \<open>dy\<close> has one entry per species and its \<open>i\<close>-th entry is the value
  of the \<open>i\<close>-th model entry in that scope.
\<close>

theorem dY_derivative:
  assumes "distinct (map fst (species system))"
    and "distinct (map fst (parameters system))"
    and "length y = length (species system)"
  shows "dY_scope system y
      = map_of (zip (map fst (species system)) y)
          ++ map_of (map (\<lambda>(p, par). (p, par_value par)) (parameters system))
    \<and> (dY ev system t y = Inr dy \<longleftrightarrow>
         length dy = length (species system)
         \<and> (\<forall>i < length (species system).
               \<exists>e. array_get (model system) i = Some (Compiled e)
                 \<and> ev e (dY_scope system y) = Inr (dy ! i)))"
proof -
  have scope: "dY_scope system y
      = map_of (zip (map fst (species system)) y)
          ++ map_of (map (\<lambda>(p, par). (p, par_value par)) (parameters system))"
    using assms by (rule dY_scope_eq)
  let ?slot = "\<lambda>i_y. case array_get (model system) i_y of
                       None \<Rightarrow> Inl TypeError
                     | Some (Compiled e) \<Rightarrow> ev e (dY_scope system y)"
  have slot: "?slot i = Inr v \<longleftrightarrow> (\<exists>e. array_get (model system) i = Some (Compiled e) \<and> ev e (dY_scope system y) = Inr v)"
    for i v
    by (auto split: option.splits evaluator.splits)
  have "dY ev system t y = Inr dy \<longleftrightarrow>
      length dy = length y \<and> (\<forall>i < length y. ?slot ([0..<length y] ! i) = Inr (dy ! i))"
    by (simp add: dY_def Let_def map_err_Inr_iff)
  also have "\<dots> \<longleftrightarrow> length dy = length y \<and> (\<forall>i < length y. ?slot i = Inr (dy ! i))"
    by auto
  finally have "dY ev system t y = Inr dy \<longleftrightarrow>
         length dy = length (species system)
         \<and> (\<forall>i < length (species system).
               \<exists>e. array_get (model system) i = Some (Compiled e)
                 \<and> ev e (dY_scope system y) = Inr (dy ! i))"
    by (simp add: assms(3) slot)
  with scope show ?thesis by simp
qed

theorem dY_derivative_witness:
  "distinct (map fst (species decay_compiled))
   \<and> distinct (map fst (parameters decay_compiled))
   \<and> length [Some (10::real)] = length (species decay_compiled)
   \<and> dY_scope decay_compiled [Some 10] = [''A'' \<mapsto> Some 10, ''k'' \<mapsto> Some (1/2)]
   \<and> dY eval_node decay_compiled 0 [Some 10] = Inr [Some (- 5)]"
proof -
  have h1: "distinct (map fst (species decay_compiled))"
    by (simp add: decay_compiled_fields)
  have h2: "distinct (map fst (parameters decay_compiled))"
    by (simp add: decay_compiled_fields)
  have h3: "length [Some (10::real)] = length (species decay_compiled)"
    by (simp add: decay_compiled_fields)
  show ?thesis
    using dY_derivative [OF h1 h2 h3, of eval_node 0 "[Some (- 5)]"]
    by (simp add: decay_compiled_fields decay_dY new_Parameter_def) 
qed

text \<open>
  Claim C10. The parameters are written into the scope after the species values.
  When the \<open>i\<close>-th species has the id \<open>p\<close> of a parameter, the scope binds \<open>p\<close> to
  the parameter's value whatever \<open>y\<close> is, and neither the scope nor the result of
  \<open>dY\<close> depends on the \<open>i\<close>-th component of \<open>y\<close>.
\<close>

theorem dY_parameter_shadows_species:
  assumes "distinct (map fst (parameters system))"
    and "(p, par) \<in> set (parameters system)"
    and "i < length (species system)"
    and "fst (species system ! i) = p"
  shows "dY_scope system y p = Some (par_value par)
    \<and> dY_scope system (y[i := z]) = dY_scope system y
    \<and> dY ev system t (y[i := z]) = dY ev system t y"
proof -
  let ?ids = "map fst (species system)"
  let ?key = "\<lambda>j. js_key (keys_at ?ids j)"
  let ?M = "map_of (rev (map (\<lambda>(p, par). (p, par_value par)) (parameters system)))"
  have keyi: "?key i = p"
    using assms(3,4) by (simp add: keys_at_def js_key_def)
  have bound: "\<And>y'. dY_scope system y' p = Some (par_value par)"
    using assms(1,2) by (rule dY_scope_parameter)
  have sc: "\<And>y'. dY_scope system y'
      = fold (\<lambda>j sc. sc(?key j \<mapsto> y' ! j)) [0..<length y'] Map.empty ++ ?M"
    unfolding dY_scope_def Let_def
    by (simp add: fold_upd_alist [of par_value "parameters system"])
  have same: "dY_scope system (y[i := z]) = dY_scope system y"
  proof (rule ext)
    fix k
    show "dY_scope system (y[i := z]) k = dY_scope system y k"
    proof (cases "k = p")
      case True
      then show ?thesis by (simp add: bound)
    next
      case False
      have "\<forall>j \<in> set [0..<length y]. ?key j = k \<longrightarrow> y[i := z] ! j = y ! j"
      proof (intro ballI impI)
        fix j
        assume "?key j = k"
        with False keyi have "j \<noteq> i" by auto
        then show "y[i := z] ! j = y ! j" by simp
      qed
      then have "fold (\<lambda>j sc. sc(?key j \<mapsto> y[i := z] ! j)) [0..<length y] Map.empty k
          = fold (\<lambda>j sc. sc(?key j \<mapsto> y ! j)) [0..<length y] Map.empty k"
        by (rule species_loop_agree) simp
      then show ?thesis
        by (simp add: sc map_add_def split: option.splits)
    qed
  qed
  have "dY ev system t (y[i := z]) = dY ev system t y"
    by (simp add: dY_def same)
  with bound same show ?thesis by simp
qed

theorem dY_parameter_shadows_species_witness:
  "dY_scope shadow_System [Some 10, Some 7] ''k'' = Some (Some (1/2))
   \<and> dY eval_node shadow_System 0 [Some 10, Some 100] = dY eval_node shadow_System 0 [Some 10, Some 7]
   \<and> dY eval_node shadow_System 0 [Some 10, Some 7] = Inr [Some (- 5), Some 0]"
proof -
  have h1: "distinct (map fst (parameters shadow_System))"
    by (simp add: shadow_System_fields)
  have h2: "(''k'', new_Parameter (Some (1/2)) None) \<in> set (parameters shadow_System)"
    by (simp add: shadow_System_fields)
  have h3: "1 < length (species shadow_System)"
    by (simp add: shadow_System_fields)
  have h4: "fst (species shadow_System ! 1) = ''k''"
    by (simp add: shadow_System_fields)
  have run: "dY eval_node shadow_System 0 [Some 10, Some 7] = Inr [Some (- 5), Some 0]"
    by (simp add: dY_def dY_scope_def shadow_System_fields keys_at_def js_key_def array_get_def
        decay_rule_A_def apply_fn_def new_Parameter_def upt_rec [of _ "numeral _"])
  show ?thesis
    using dY_parameter_shadows_species [OF h1 h2 h3 h4, of "[Some 10, Some 7]" "Some 100" eval_node 0]
    by (simp add: run new_Parameter_def)
qed

section \<open>compile\<close>



text \<open>A step of the aggregation changes nothing of a species but the expression of its
  rate law; the species list modulo these expressions is the frame of the loops.\<close>

lemma update_frame:
  "map_of sps k = Some v \<Longrightarrow> g v' = g v \<Longrightarrow>
     map (\<lambda>(k, v). (k, g v)) (AList.update k v' sps) = map (\<lambda>(k, v). (k, g v)) sps"
  by (induction sps) (auto split: if_splits)

lemma frame_keys:
  assumes "map (\<lambda>(k, spc). (k, reset_rate_law spc)) sps' = map (\<lambda>(k, spc). (k, reset_rate_law spc)) sps"
  shows "map fst sps' = map fst sps"
proof -
  have "map fst (map (\<lambda>(k, spc). (k, reset_rate_law spc)) sps')
      = map fst (map (\<lambda>(k, spc). (k, reset_rate_law spc)) sps)"
    using assms by simp
  then show ?thesis
    by (simp add: comp_def case_prod_beta)
qed

lemma add_term_effect:
  assumes "add_term i pid sps = Inr sps'"
  shows "map (\<lambda>(k, spc). (k, reset_rate_law spc)) sps' = map (\<lambda>(k, spc). (k, reset_rate_law spc)) sps"
    and "rate_law_of sps' sp
      = (if sp = pid then foldl add_to (rate_law_of sps pid) (terms_of_instance pid i)
         else rate_law_of sps sp)"
proof -
  from assms obtain r where r: "map_of (rules i) pid = Some r"
    by (auto simp: add_term_def split: option.splits)
  show "map (\<lambda>(k, spc). (k, reset_rate_law spc)) sps' = map (\<lambda>(k, spc). (k, reset_rate_law spc)) sps"
  proof (cases "r_expression r")
    case None
    with assms r show ?thesis by (simp add: add_term_def)
  next
    case (Some e)
    with assms r obtain participant where p: "map_of sps pid = Some participant"
      by (auto simp: add_term_def split: option.splits)
    with assms r Some show ?thesis
      by (auto simp: add_term_def reset_rate_law_def intro!: update_frame)
  qed
  show "rate_law_of sps' sp
      = (if sp = pid then foldl add_to (rate_law_of sps pid) (terms_of_instance pid i)
         else rate_law_of sps sp)"
  proof (cases "r_expression r")
    case None
    with assms r show ?thesis by (simp add: add_term_def terms_of_instance_def)
  next
    case (Some e)
    with assms r obtain participant where p: "map_of sps pid = Some participant"
      by (auto simp: add_term_def split: option.splits)
    with assms r Some show ?thesis
      by (cases "r_expression (sp_rate_law participant)")
        (auto simp: add_term_def rate_law_of_def terms_of_instance_def update_conv' clone_def)
  qed
qed






lemma add_term_succeeds:
  assumes "pid \<in> set (variables i)" "pid \<in> set (map fst sps)"
  shows "\<exists>sps'. add_term i pid sps = Inr sps'"
proof -
  from assms(1) obtain b where "(pid, b) \<in> set (rules i)"
    by (auto simp: variables_def)
  then obtain r where "map_of (rules i) pid = Some r"
    using weak_map_of_SomeI by fastforce
  moreover from assms(2) obtain c where "(pid, c) \<in> set sps"
    by auto
  then obtain spc where "map_of sps pid = Some spc"
    using weak_map_of_SomeI by fastforce
  ultimately show ?thesis
    by (cases "r_expression r") (auto simp: add_term_def)
qed

lemma inner_loop_succeeds:
  assumes "set vs \<subseteq> set (variables i)" "set vs \<subseteq> set (map fst sps)"
  shows "\<exists>sps'. for_each (add_term i) vs sps = Inr sps'"
  using assms
proof (induction vs arbitrary: sps)
  case Nil
  then show ?case by simp
next
  case (Cons v vs)
  from Cons.prems obtain sps1 where s1: "add_term i v sps = Inr sps1"
    using add_term_succeeds [of v i sps] by auto
  have "map fst sps1 = map fst sps"
    using add_term_effect(1) [OF s1] by (rule frame_keys)
  with Cons.prems have "set vs \<subseteq> set (variables i)" "set vs \<subseteq> set (map fst sps1)"
    by auto
  from Cons.IH [OF this] show ?case
    by (simp add: s1)
qed

lemma for_each_keys:
  assumes "for_each (add_term i) vs sps = Inr sps'"
  shows "map fst sps' = map fst sps"
  using assms
proof (induction vs arbitrary: sps)
  case Nil
  then show ?case by simp
next
  case (Cons v vs)
  from Cons.prems obtain sps1 where s1: "add_term i v sps = Inr sps1"
    and rest: "for_each (add_term i) vs sps1 = Inr sps'"
    by (auto split: sum.splits)
  have "map fst sps1 = map fst sps"
    using add_term_effect(1) [OF s1] by (rule frame_keys)
  with Cons.IH [OF rest] show ?case by simp
qed

lemma aggregate_succeeds:
  assumes "\<forall>i \<in> set ins. set (variables i) \<subseteq> set (map fst sps)"
  shows "\<exists>sps'. aggregate ins sps = Inr sps'"
  using assms unfolding aggregate_def
proof (induction ins arbitrary: sps)
  case Nil
  then show ?case by simp
next
  case (Cons i ins)
  from Cons.prems obtain sps1 where s1: "for_each (add_term i) (variables i) sps = Inr sps1"
    using inner_loop_succeeds [of "variables i" i sps] by auto
  have "map fst sps1 = map fst sps"
    using s1 by (rule for_each_keys)
  with Cons.prems have "\<forall>i \<in> set ins. set (variables i) \<subseteq> set (map fst sps1)"
    by simp
  from Cons.IH [OF this] show ?case
    by (simp add: s1)
qed

text \<open>\<open>compile\<close> returns whenever every variable of every live instance names a species.\<close>

lemma compile_succeeds:
  assumes "\<forall>i \<in> set (live_interactions s). set (variables i) \<subseteq> set (map fst (species s))"
  shows "\<exists>s'. compile parse s = Inr s'"
proof -
  let ?sps = "map (\<lambda>(sp, spc). (sp, reset_rate_law spc)) (species s)"
  have "map fst ?sps = map fst (species s)"
    by (simp add: comp_def case_prod_beta)
  with assms have "\<forall>i \<in> set (live_interactions s). set (variables i) \<subseteq> set (map fst ?sps)"
    by simp
  from aggregate_succeeds [OF this] show ?thesis
    by (auto simp: compile_def)
qed








section \<open>Reachable systems are well formed\<close>




















section \<open>The buffer invariant\<close>

lemma synced_iff:
  "synced sim \<longleftrightarrow> (\<forall>(k, tr) \<in> set (trajectory sim). \<exists>xs. tr = Some xs \<and> length xs = length (time sim))"
  by (auto simp: synced_def list_all_iff split: option.splits)














section \<open>The binding step never touches the definition\<close>

text \<open>Allocation only appends, and the nodes of a new tree are closed.\<close>

lemma alloc_extends:
  "alloc e h = (r, h') \<Longrightarrow> (\<exists>ext. h' = h @ ext) \<and> length h \<le> r \<and> r < length h'"
  "allocs es h = (cs, h'') \<Longrightarrow> (\<exists>ext. h'' = h @ ext) \<and> (\<forall>c \<in> set cs. length h \<le> c \<and> c < length h'')"
proof (induction e h and es h arbitrary: r h' and cs h'' rule: alloc_allocs.induct)
  case (1 n h)
  then show ?case by auto
next
  case (2 c h)
  then show ?case by auto
next
  case (3 op fn as h)
  obtain cs h1 where a: "allocs as h = (cs, h1)" by (cases "allocs as h")
  from "3.IH" [OF a] obtain ext where "h1 = h @ ext" by auto
  with "3.prems" a show ?case by auto
next
  case (4 ty as h)
  obtain cs h1 where a: "allocs as h = (cs, h1)" by (cases "allocs as h")
  from "4.IH" [OF a] obtain ext where "h1 = h @ ext" by auto
  with "4.prems" a show ?case by auto
next
  case (5 h)
  then show ?case by auto
next
  case (6 a as h)
  obtain c h1 where a: "alloc a h = (c, h1)" by (cases "alloc a h")
  obtain cs' h2 where b: "allocs as h1 = (cs', h2)" by (cases "allocs as h1")
  from "6.IH"(1) [OF a] obtain ext1 where e1: "h1 = h @ ext1" "length h \<le> c" "c < length h1"
    by auto
  from "6.IH"(2) [OF a [symmetric] b] obtain ext2 where e2: "h2 = h1 @ ext2"
    "\<forall>c \<in> set cs'. length h1 \<le> c \<and> c < length h2"
    by auto
  from "6.prems" a b have "cs = c # cs'" "h'' = h2" by auto
  with e1 e2 show ?case by auto
qed

lemma closed_above_snoc:
  assumes "closed_above n h" "\<forall>c \<in> set (children x). n \<le> c"
  shows "closed_above n (h @ [x])"
  using assms by (auto simp: closed_above_def nth_append list_all_iff)

lemma alloc_closed:
  "alloc e h = (r, h') \<Longrightarrow> n \<le> length h \<Longrightarrow> closed_above n h \<Longrightarrow> closed_above n h'"
  "allocs es h = (cs, h'') \<Longrightarrow> n \<le> length h \<Longrightarrow> closed_above n h \<Longrightarrow> closed_above n h''"
proof (induction e h and es h arbitrary: r h' and cs h'' rule: alloc_allocs.induct)
  case (1 s h)
  then show ?case by (auto intro: closed_above_snoc)
next
  case (2 c h)
  then show ?case by (auto intro: closed_above_snoc)
next
  case (3 op fn as h)
  obtain cs h1 where a: "allocs as h = (cs, h1)" by (cases "allocs as h")
  have c1: "closed_above n h1"
    using "3.IH" [OF a "3.prems"(2,3)] .
  have "\<forall>c \<in> set cs. n \<le> c"
    using alloc_extends(2) [OF a] "3.prems"(2) by fastforce
  then have "closed_above n (h1 @ [HOperator op fn cs])"
    using c1 by (intro closed_above_snoc) auto
  with "3.prems"(1) a show ?case by auto
next
  case (4 ty as h)
  obtain cs h1 where a: "allocs as h = (cs, h1)" by (cases "allocs as h")
  have c1: "closed_above n h1"
    using "4.IH" [OF a "4.prems"(2,3)] .
  have "\<forall>c \<in> set cs. n \<le> c"
    using alloc_extends(2) [OF a] "4.prems"(2) by fastforce
  then have "closed_above n (h1 @ [HOther ty cs])"
    using c1 by (intro closed_above_snoc) auto
  with "4.prems"(1) a show ?case by auto
next
  case (5 h)
  then show ?case by auto
next
  case (6 a as h)
  obtain c h1 where a: "alloc a h = (c, h1)" by (cases "alloc a h")
  obtain cs' h2 where b: "allocs as h1 = (cs', h2)" by (cases "allocs as h1")
  have c1: "closed_above n h1"
    using "6.IH"(1) [OF a "6.prems"(2,3)] .
  have "n \<le> length h1"
    using alloc_extends(1) [OF a] "6.prems"(2) by auto
  from "6.IH"(2) [OF a [symmetric] b this c1] have "closed_above n h2" .
  with "6.prems"(1) a b show ?case by auto
qed

lemma nodes_of_range:
  assumes "closed_above n h"
  shows "n \<le> a \<Longrightarrow> set (nodes_of h a) \<subseteq> {n..<length h}"
proof (induction a rule: less_induct)
  case (less a)
  show ?case
  proof (cases "a < length h")
    case False
    then show ?thesis by (simp add: nodes_of.simps [of h a])
  next
    case True
    have ch: "\<forall>c \<in> set (children (h ! a)). n \<le> c"
      using assms less.prems True by (auto simp: closed_above_def list_all_iff)
    have "set (if c < a then nodes_of h c else []) \<subseteq> {n..<length h}"
      if "c \<in> set (children (h ! a))" for c
      using less.IH [of c] ch that by auto
    then show ?thesis
      using True less.prems by (auto simp: nodes_of.simps [of h a])
  qed
qed

lemma tree_frame:
  assumes "m \<le> length h" "m \<le> length h'" "\<forall>b < m. h' ! b = h ! b"
  shows "a < m \<Longrightarrow> tree_at h' a = tree_at h a \<and> nodes_of h' a = nodes_of h a"
proof (induction a rule: less_induct)
  case (less a)
  have eq: "h' ! a = h ! a"
    using assms less.prems by simp
  have lt: "a < length h" "a < length h'"
    using assms less.prems by auto
  have t: "(\<lambda>c. if c < a then tree_at h' c else None) = (\<lambda>c. if c < a then tree_at h c else None)"
    using less by (auto simp: fun_eq_iff)
  have n: "(\<lambda>c. if c < a then nodes_of h' c else []) = (\<lambda>c. if c < a then nodes_of h c else [])"
    using less by (auto simp: fun_eq_iff)
  show ?case
    by (simp add: tree_at.simps [of h' a] tree_at.simps [of h a]
        nodes_of.simps [of h' a] nodes_of.simps [of h a] eq lt t n split: hnode.splits)
qed

lemma nodes_of_below:
  "set (nodes_of h a) \<subseteq> {..a}"
proof (induction a rule: less_induct)
  case (less a)
  have "set (if c < a then nodes_of h c else []) \<subseteq> {..a}" for c
  proof (cases "c < a")
    case True
    then have "set (nodes_of h c) \<subseteq> {..c}" by (rule less.IH)
    also have "\<dots> \<subseteq> {..a}" using True by auto
    finally show ?thesis using True by simp
  next
    case False
    then show ?thesis by simp
  qed
  then show ?case
    by (auto simp: nodes_of.simps [of h a])
qed

lemma rename_node_length [simp]: "length (rename_node tbl a h) = length h"
  by (simp add: rename_node_def split: hnode.splits option.splits)

lemma rename_node_other: "b \<noteq> a \<Longrightarrow> rename_node tbl a h ! b = h ! b"
  by (simp add: rename_node_def split: hnode.splits option.splits)

lemma rename_node_children: "children (rename_node tbl a h ! b) = children (h ! b)"
proof (cases "a < length h")
  case True
  then show ?thesis
    by (cases "b = a") (auto simp: rename_node_def split: hnode.splits option.splits)
next
  case False
  then have "h[a := x] = h" for x
    by (intro list_update_beyond) simp
  then show ?thesis
    by (simp add: rename_node_def split: hnode.splits option.splits)
qed

lemma rename_node_continues:
  assumes "continues h0 h" "length h0 \<le> a"
  shows "continues h0 (rename_node tbl a h)"
proof -
  have "take (length h0) (rename_node tbl a h) = take (length h0) h"
    using assms(2) by (intro nth_equalityI) (auto simp: rename_node_other)
  moreover have "closed_above (length h0) (rename_node tbl a h)"
    using assms(1) by (simp add: continues_def closed_above_def rename_node_children)
  ultimately show ?thesis
    using assms(1) by (simp add: continues_def)
qed

lemma rename_fold_continues:
  assumes "continues h0 h" "\<forall>a \<in> set as. length h0 \<le> a"
  shows "continues h0 (fold (rename_node tbl) as h)"
  using assms by (induction as arbitrary: h) (auto intro: rename_node_continues)

lemma for_each_invariant:
  assumes "for_each f ix st = Inr st'" "P st"
    and "\<And>i st st'. f i st = Inr st' \<Longrightarrow> P st \<Longrightarrow> P st'"
  shows "P st'"
  using assms(1,2)
proof (induction ix arbitrary: st)
  case Nil
  then show ?case by simp
next
  case (Cons i ix)
  from Cons.prems(1) obtain st1 where s1: "f i st = Inr st1" and rest: "for_each f ix st1 = Inr st'"
    by (auto split: sum.splits)
  from assms(3) [OF s1 Cons.prems(2)] have "P st1" .
  from Cons.IH [OF rest this] show ?case .
qed

lemma alloc_continues:
  assumes "alloc e h = (r, h')" "continues h0 h"
  shows "continues h0 h'" and "length h0 \<le> r"
proof -
  from alloc_extends(1) [OF assms(1)] obtain ext where ext: "h' = h @ ext"
    and r: "length h \<le> r" "r < length h'"
    by auto
  have n: "length h0 \<le> length h"
    using assms(2) by (simp add: continues_def)
  have "closed_above (length h0) h'"
    using alloc_closed(1) [OF assms(1) n] assms(2) by (simp add: continues_def)
  moreover have "take (length h0) h' = h0"
    using assms(2) n by (simp add: ext continues_def)
  ultimately show "continues h0 h'"
    using n by (simp add: continues_def ext)
  show "length h0 \<le> r"
    using n r by simp
qed

lemma roots_from_update:
  assumes "roots_from n rs" "case h_expression r of None \<Rightarrow> True | Some a \<Rightarrow> n \<le> a"
  shows "roots_from n (rs[i := (k, r)])"
proof -
  have "set (rs[i := (k, r)]) \<subseteq> insert (k, r) (set rs)"
    by (rule set_update_subset_insert)
  with assms show ?thesis
    by (auto simp: roots_from_def list_all_iff)
qed

lemma clone_rule_heap_step:
  assumes "clone_rule_heap parse toStr base i st = Inr st'"
    and "continues h0 (snd st) \<and> roots_from (length h0) (fst st)"
  shows "continues h0 (snd st') \<and> roots_from (length h0) (fst st')"
proof -
  obtain rs h where st: "st = (rs, h)" by (cases st)
  show ?thesis
  proof (cases "h_expression (snd (base ! i))")
    case None
    with assms st show ?thesis by (simp add: clone_rule_heap_def)
  next
    case (Some rt)
    with assms(1) st obtain e where e: "tree_at h rt = Some e" and i: "i < length rs"
      by (auto simp: clone_rule_heap_def split: if_splits option.splits)
    obtain rt' h' where al: "alloc (parse (toStr e)) h = (rt', h')"
      by (cases "alloc (parse (toStr e)) h")
    from assms(1) st Some e i al
    have st': "st' = (rs[i := (fst (rs ! i), \<lparr>h_name = None, h_expression = Some rt'\<rparr>)], h')"
      by (simp add: clone_rule_heap_def)
    from assms(2) st have c: "continues h0 h" and rf: "roots_from (length h0) rs"
      by simp_all
    note ac = alloc_continues [OF al c]
    have "roots_from (length h0) (rs[i := (fst (rs ! i), \<lparr>h_name = None, h_expression = Some rt'\<rparr>)])"
      using rf ac(2) by (intro roots_from_update) simp_all
    with ac(1) show ?thesis
      by (simp add: st')
  qed
qed

lemma substitute_heap_continues:
  assumes "continues h0 h" "case h_expression r of None \<Rightarrow> True | Some a \<Rightarrow> length h0 \<le> a"
  shows "continues h0 (substitute_heap tbl r h)"
proof (cases "h_expression r")
  case None
  with assms(1) show ?thesis by (simp add: substitute_heap_def)
next
  case (Some rt)
  with assms(2) have "length h0 \<le> rt" by simp
  moreover have "closed_above (length h0) h"
    using assms(1) by (simp add: continues_def)
  ultimately have "set (nodes_of h rt) \<subseteq> {length h0..<length h}"
    by (intro nodes_of_range)
  then have "\<forall>a \<in> set (symbol_addrs h rt). length h0 \<le> a"
    by (auto simp: symbol_addrs_def)
  with assms(1) show ?thesis
    by (simp add: substitute_heap_def Some rename_fold_continues)
qed

lemma substitute_loop_continues:
  assumes "continues h0 h" "list_all (\<lambda>r. case h_expression r of None \<Rightarrow> True | Some a \<Rightarrow> length h0 \<le> a) rs"
  shows "continues h0 (fold (substitute_heap tbl) rs h)"
  using assms by (induction rs arbitrary: h) (auto intro: substitute_heap_continues)

lemma new_rules_roots: "roots_from n (fold (\<lambda>v rs. AList.update v new_HRule rs) vs rs0)"
  if "roots_from n rs0"
  using that
proof (induction vs arbitrary: rs0)
  case Nil
  then show ?case by simp
next
  case (Cons v vs)
  have "set (AList.update v new_HRule rs0) \<subseteq> insert (v, new_HRule) (set rs0)"
    by (induction rs0) auto
  with Cons.prems have "roots_from n (AList.update v new_HRule rs0)"
    by (auto simp: roots_from_def list_all_iff new_HRule_def)
  from Cons.IH [OF this] show ?case by simp
qed

lemma Interaction_heap_continues:
  assumes "Interaction_heap parse toStr sys nm base_rules v_args p_args h = Inr (inst_rules, h')"
  shows "continues h h' \<and> roots_from (length h) inst_rules"
proof -
  let ?rs0 = "fold (\<lambda>v rs. AList.update v new_HRule rs) v_args []"
  from assms obtain rs h1 where loop:
    "for_each (clone_rule_heap parse toStr base_rules) [0..<length base_rules] (?rs0, h) = Inr (rs, h1)"
    by (auto simp: Interaction_heap_def split: sum.splits)
  have "continues h h"
    by (auto simp: continues_def closed_above_def)
  moreover have "roots_from (length h) ?rs0"
    by (rule new_rules_roots) (simp add: roots_from_def)
  ultimately have start: "continues h (snd (?rs0, h)) \<and> roots_from (length h) (fst (?rs0, h))"
    by simp
  have mid: "continues h (snd (rs, h1)) \<and> roots_from (length h) (fst (rs, h1))"
    using loop start clone_rule_heap_step by (rule for_each_invariant)
  then have c1: "continues h h1" and r1: "roots_from (length h) rs"
    by simp_all
  have rs: "inst_rules = rs"
    using assms loop by (auto simp: Interaction_heap_def Let_def split: if_splits)
  have "list_all (\<lambda>r. case h_expression r of None \<Rightarrow> True | Some a \<Rightarrow> length h \<le> a) (map snd rs)"
    using r1 by (auto simp: roots_from_def list_all_iff)
  then have "continues h (fold (substitute_heap tbl) (map snd rs) h1)" for tbl
    using c1 by (intro substitute_loop_continues)
  with assms loop c1 have "continues h h'"
    by (auto simp: Interaction_heap_def Let_def split: if_splits)
  with r1 rs show ?thesis by simp
qed

lemma tree_at_decay_store: "tree_at decay_store 3 = Some decay_rule"
  by (simp add: tree_at.simps decay_store_def decay_rule_def)

lemma Interaction_heap_decay:
  "Interaction_heap (parse_of sample_texts) (toString_of sample_texts) decay_System ''decay''
      decay_hrules [''A''] [''k''] decay_store
     = Inr ([(''A'', \<lparr>h_name = None, h_expression = Some 7\<rparr>)], decay_store_bound)"
proof -
  have al: "alloc decay_rule decay_store = (7, decay_store_cloned)"
    by (simp add: decay_rule_def decay_store_def decay_store_cloned_def)
  have loop: "for_each (clone_rule_heap (parse_of sample_texts) (toString_of sample_texts) decay_hrules)
        [0..<length decay_hrules] (fold (\<lambda>v rs. AList.update v new_HRule rs) [''A''] [], decay_store)
      = Inr ([(''A'', \<lparr>h_name = None, h_expression = Some 7\<rparr>)], decay_store_cloned)"
    by (simp add: clone_rule_heap_def decay_hrules_def tree_at_decay_store reparse_decay al new_HRule_def)
  have t1: "tree_at decay_store_cloned 3 = Some decay_rule"
    by (simp add: tree_at.simps decay_store_cloned_def decay_rule_def)
  have ps: "parameters_of \<lparr>i_name = ''decay'', rules = rules_in decay_store_cloned
        [(''a'', \<lparr>h_name = None, h_expression = Some 3\<rparr>)]\<rparr> = [''k'']"
    by (simp add: rules_in_def t1 parameters_of_def variables_def decay_rule_def)
  have nodes: "nodes_of decay_store_cloned 7 = [7, 5, 4, 6]"
    by (simp add: nodes_of.simps decay_store_cloned_def)
  have syms: "symbol_addrs decay_store_cloned 7 = [4, 6]"
    by (simp add: symbol_addrs_def nodes) (simp add: decay_store_cloned_def)
  have sub: "substitute_heap [(''a'', ''A''), (''k'', ''k'')] \<lparr>h_name = None, h_expression = Some 7\<rparr>
        decay_store_cloned = decay_store_bound"
    by (simp add: substitute_heap_def syms) (simp add: rename_node_def decay_store_cloned_def decay_store_bound_def)
  show ?thesis
    unfolding Interaction_heap_def loop
    by (simp add: ps decay_System_fields decay_hrules_def sub Let_def)
qed

text \<open>
  Claim C3. When the constructor returns for a definition whose rule expressions are
  in the store, every node that existed before is unchanged, so the tree of every rule
  of the definition is what it was; the tree of every rule of the instance consists of
  nodes that did not exist before and shares no node with a tree of the definition; and
  overwriting any node of an instance tree leaves the trees of the definition as they
  were before the instantiation.
\<close>

theorem instantiation_leaves_template_untouched:
  assumes "Interaction_heap parse toStr sys nm base_rules v_args p_args h = Inr (inst_rules, h')"
    and "(k0, r0) \<in> set base_rules" and "h_expression r0 = Some rt0" and "rt0 < length h"
    and "(k, r) \<in> set inst_rules" and "h_expression r = Some rt"
  shows "take (length h) h' = h
    \<and> tree_at h' rt0 = tree_at h rt0
    \<and> set (nodes_of h' rt) \<inter> set (nodes_of h' rt0) = {}
    \<and> (\<forall>a \<in> set (nodes_of h' rt). \<forall>v. tree_at (h'[a := v]) rt0 = tree_at h rt0)"
proof -
  from Interaction_heap_continues [OF assms(1)]
  have c: "continues h h'" and rf: "roots_from (length h) inst_rules"
    by simp_all
  from c have len: "length h \<le> length h'" and pre: "take (length h) h' = h"
    and cl: "closed_above (length h) h'"
    by (simp_all add: continues_def)
  have same: "\<forall>b < length h. h' ! b = h ! b"
  proof (intro allI impI)
    fix b
    assume b: "b < length h"
    then have "take (length h) h' ! b = h' ! b" by simp
    with pre show "h' ! b = h ! b" by simp
  qed
  have t0: "tree_at h' rt0 = tree_at h rt0"
    using tree_frame [OF le_refl len same assms(4)] by simp
  have fresh: "length h \<le> rt"
    using rf assms(5,6) by (auto simp: roots_from_def list_all_iff)
  have inst: "set (nodes_of h' rt) \<subseteq> {length h..<length h'}"
    using cl fresh by (rule nodes_of_range)
  have tmpl: "set (nodes_of h' rt0) \<subseteq> {..rt0}"
    by (rule nodes_of_below)
  have disj: "set (nodes_of h' rt) \<inter> set (nodes_of h' rt0) = {}"
    using inst tmpl assms(4) by fastforce
  have mut: "tree_at (h'[a := v]) rt0 = tree_at h rt0" if a: "a \<in> set (nodes_of h' rt)" for a v
  proof -
    from a inst have "length h \<le> a" by auto
    then have "\<forall>b < length h. h'[a := v] ! b = h ! b"
      using same by simp
    moreover have "length h \<le> length (h'[a := v])"
      using len by simp
    ultimately show ?thesis
      using tree_frame [OF le_refl _ _ assms(4), of "h'[a := v]"] by simp
  qed
  show ?thesis
    using pre t0 disj mut by simp
qed

theorem instantiation_leaves_template_untouched_witness:
  "tree_at decay_store_bound 3 = Some decay_rule
   \<and> tree_at decay_store_bound 7 = Some decay_rule_A
   \<and> nodes_of decay_store_bound 7 = [7, 5, 4, 6]
   \<and> nodes_of decay_store_bound 3 = [3, 1, 0, 2]
   \<and> tree_at (decay_store_bound[6 := HSymbol ''B'']) 3 = Some decay_rule"
proof -
  have h2: "(''a'', \<lparr>h_name = None, h_expression = Some 3\<rparr>) \<in> set decay_hrules"
    by (simp add: decay_hrules_def)
  have h3: "h_expression \<lparr>h_name = None, h_expression = Some 3\<rparr> = Some 3"
    by simp
  have h4: "3 < length decay_store"
    by (simp add: decay_store_def)
  have h5: "(''A'', \<lparr>h_name = None, h_expression = Some 7\<rparr>)
      \<in> set [(''A'', \<lparr>h_name = None, h_expression = Some 7\<rparr>)]"
    by simp
  have h6: "h_expression \<lparr>h_name = None, h_expression = Some 7\<rparr> = Some 7"
    by simp
  have n7: "nodes_of decay_store_bound 7 = [7, 5, 4, 6]"
    by (simp add: nodes_of.simps decay_store_bound_def)
  have n3: "nodes_of decay_store_bound 3 = [3, 1, 0, 2]"
    by (simp add: nodes_of.simps decay_store_bound_def)
  have t7: "tree_at decay_store_bound 7 = Some decay_rule_A"
    by (simp add: tree_at.simps decay_store_bound_def decay_rule_A_def)
  show ?thesis
    using instantiation_leaves_template_untouched [OF Interaction_heap_decay h2 h3 h4 h5 h6]
    by (simp add: n7 n3 t7 tree_at_decay_store)
qed

section \<open>The constructor on the store and the constructor on values\<close>

text \<open>
  The binding step is modelled twice: on values, where a rule holds its expression,
  and on the store, where it holds the address of the root. This section shows that
  the two agree: \<open>math.parse\<close> builds the tree it was given on new nodes, the renaming
  in place of the SymbolNodes of a tree is the substitution on the tree, and the
  constructor on the store leaves the rules that the constructor on values returns.
\<close>

lemma those_map_Some: "those (map Some xs) = Some xs"
  by (induction xs) auto

lemma append_frame:
  assumes "a < length h"
  shows "tree_at (h @ ext) a = tree_at h a" and "nodes_of (h @ ext) a = nodes_of h a"
  using tree_frame [of "length h" h "h @ ext" a] assms by (simp_all add: nth_append)

text \<open>The tree that \<open>alloc\<close> builds is the tree it was given, on new nodes, each used
  once.\<close>

lemma alloc_tree:
  "alloc e h = (r, h') \<Longrightarrow>
     tree_at h' r = Some e \<and> distinct (nodes_of h' r) \<and> set (nodes_of h' r) \<subseteq> {length h..<length h'}"
  "allocs es h = (cs, h'') \<Longrightarrow>
     map (tree_at h'') cs = map Some es
     \<and> distinct (concat (map (nodes_of h'') cs))
     \<and> set (concat (map (nodes_of h'') cs)) \<subseteq> {length h..<length h''}"
proof (induction e h and es h arbitrary: r h' and cs h'' rule: alloc_allocs.induct)
  case (1 n h)
  then show ?case
    by (auto simp: tree_at.simps [of "h @ [HSymbol n]" "length h"] nodes_of.simps [of "h @ [HSymbol n]" "length h"])
next
  case (2 c h)
  then show ?case
    by (auto simp: tree_at.simps [of "h @ [HConstant c]" "length h"] nodes_of.simps [of "h @ [HConstant c]" "length h"])
next
  case (3 op fn as h)
  obtain cs h1 where a: "allocs as h = (cs, h1)" by (cases "allocs as h")
  note ih = "3.IH" [OF a]
  from "3.prems" a have r: "r = length h1" and h': "h' = h1 @ [HOperator op fn cs]"
    by auto
  have below: "\<forall>c \<in> set cs. c < length h1"
    using alloc_extends(2) [OF a] by auto
  have len: "length h \<le> length h1"
    using alloc_extends(2) [OF a] by auto
  have t: "map (\<lambda>c. if c < r then tree_at h' c else None) cs = map Some as"
  proof -
    have "map (\<lambda>c. if c < r then tree_at h' c else None) cs = map (tree_at h1) cs"
      using below by (auto simp: r h' append_frame)
    with ih show ?thesis by simp
  qed
  have n: "map (\<lambda>c. if c < r then nodes_of h' c else []) cs = map (nodes_of h1) cs"
    using below by (auto simp: r h' append_frame)
  have hr: "h' ! r = HOperator op fn cs" "r < length h'"
    by (simp_all add: r h')
  have "tree_at h' r
      = map_option (OperatorNode op fn) (those (map (\<lambda>c. if c < r then tree_at h' c else None) cs))"
    by (subst tree_at.simps) (simp add: hr)
  then have tree: "tree_at h' r = Some (OperatorNode op fn as)"
    by (simp only: t those_map_Some option.map)
  have "nodes_of h' r = r # concat (map (\<lambda>c. if c < r then nodes_of h' c else []) cs)"
    by (subst nodes_of.simps) (simp add: hr)
  then have nodes: "nodes_of h' r = r # concat (map (nodes_of h1) cs)"
    by (simp only: n)
  have "r \<notin> set (concat (map (nodes_of h1) cs))"
    using ih r by auto
  with ih len show ?case
    by (auto simp: tree nodes) (auto simp: r h')
next
  case (4 ty as h)
  obtain cs h1 where a: "allocs as h = (cs, h1)" by (cases "allocs as h")
  note ih = "4.IH" [OF a]
  from "4.prems" a have r: "r = length h1" and h': "h' = h1 @ [HOther ty cs]"
    by auto
  have below: "\<forall>c \<in> set cs. c < length h1"
    using alloc_extends(2) [OF a] by auto
  have len: "length h \<le> length h1"
    using alloc_extends(2) [OF a] by auto
  have t: "map (\<lambda>c. if c < r then tree_at h' c else None) cs = map Some as"
  proof -
    have "map (\<lambda>c. if c < r then tree_at h' c else None) cs = map (tree_at h1) cs"
      using below by (auto simp: r h' append_frame)
    with ih show ?thesis by simp
  qed
  have n: "map (\<lambda>c. if c < r then nodes_of h' c else []) cs = map (nodes_of h1) cs"
    using below by (auto simp: r h' append_frame)
  have hr: "h' ! r = HOther ty cs" "r < length h'"
    by (simp_all add: r h')
  have "tree_at h' r
      = map_option (OtherNode ty) (those (map (\<lambda>c. if c < r then tree_at h' c else None) cs))"
    by (subst tree_at.simps) (simp add: hr)
  then have tree: "tree_at h' r = Some (OtherNode ty as)"
    by (simp only: t those_map_Some option.map)
  have "nodes_of h' r = r # concat (map (\<lambda>c. if c < r then nodes_of h' c else []) cs)"
    by (subst nodes_of.simps) (simp add: hr)
  then have nodes: "nodes_of h' r = r # concat (map (nodes_of h1) cs)"
    by (simp only: n)
  have "r \<notin> set (concat (map (nodes_of h1) cs))"
    using ih r by auto
  with ih len show ?case
    by (auto simp: tree nodes) (auto simp: r h')
next
  case (5 h)
  then show ?case by auto
next
  case (6 a as h)
  obtain c h1 where a: "alloc a h = (c, h1)" by (cases "alloc a h")
  obtain cs' h2 where b: "allocs as h1 = (cs', h2)" by (cases "allocs as h1")
  note ih1 = "6.IH"(1) [OF a]
  note ih2 = "6.IH"(2) [OF a [symmetric] b]
  from "6.prems" a b have cs: "cs = c # cs'" and h'': "h'' = h2" by auto
  from alloc_extends(1) [OF a] have c1: "c < length h1" and l1: "length h \<le> length h1"
    by auto
  from alloc_extends(2) [OF b] obtain ext where ext: "h2 = h1 @ ext" and l2: "length h1 \<le> length h2"
    by auto
  have fc: "tree_at h2 c = tree_at h1 c" "nodes_of h2 c = nodes_of h1 c"
    using c1 by (simp_all add: ext append_frame)
  have "set (nodes_of h1 c) \<inter> set (concat (map (nodes_of h2) cs')) = {}"
    using ih1 ih2 by fastforce
  with ih1 ih2 fc l1 l2 show ?case
    by (auto simp: cs h'')
qed

lemma rename_node_eq: "rename_node tbl a h = h[a := renamed_node tbl (h ! a)]"
proof (cases "h ! a")
  case (HSymbol n)
  show ?thesis
  proof (cases "n \<in> set (map fst tbl)")
    case True
    then obtain b where "(n, b) \<in> set tbl" by auto
    then obtain n' where "map_of tbl n = Some n'"
      using weak_map_of_SomeI by fastforce
    with True HSymbol show ?thesis
      by (simp add: rename_node_def rename_name_def)
  next
    case False
    with HSymbol show ?thesis
      by (simp add: rename_node_def rename_name_def) (metis list_update_id)
  qed
next
  case (HConstant c)
  then show ?thesis by (simp add: rename_node_def) (metis list_update_id)
next
  case (HOperator op fn cs)
  then show ?thesis by (simp add: rename_node_def) (metis list_update_id)
next
  case (HOther ty cs)
  then show ?thesis by (simp add: rename_node_def) (metis list_update_id)
qed

lemma fold_rename_nth:
  assumes "distinct as"
  shows "length (fold (rename_node tbl) as h) = length h
    \<and> (\<forall>b < length h. fold (rename_node tbl) as h ! b
          = (if b \<in> set as then renamed_node tbl (h ! b) else h ! b))"
  using assms
proof (induction as arbitrary: h)
  case Nil
  then show ?case by simp
next
  case (Cons a as)
  let ?h1 = "h[a := renamed_node tbl (h ! a)]"
  from Cons.prems have d: "distinct as" and na: "a \<notin> set as" by auto
  note ih = Cons.IH [OF d, of ?h1]
  have f: "fold (rename_node tbl) (a # as) h = fold (rename_node tbl) as ?h1"
    by (simp add: rename_node_eq)
  show ?case
  proof (intro conjI allI impI)
    show "length (fold (rename_node tbl) (a # as) h) = length h"
      using ih unfolding f by simp
  next
    fix b
    assume b: "b < length h"
    then have "fold (rename_node tbl) as ?h1 ! b
        = (if b \<in> set as then renamed_node tbl (?h1 ! b) else ?h1 ! b)"
      using ih by simp
    moreover have "?h1 ! b = h ! b" if "b \<noteq> a"
      using that by simp
    moreover have "?h1 ! a = renamed_node tbl (h ! a)" if "b = a"
      using that b by simp
    moreover have "b \<noteq> a" if "b \<in> set as"
      using that na by auto
    ultimately show "fold (rename_node tbl) (a # as) h ! b
        = (if b \<in> set (a # as) then renamed_node tbl (h ! b) else h ! b)"
      unfolding f by (cases "b = a") auto
  qed
qed

lemma those_map_option:
  "those (map (\<lambda>c. map_option f (g c)) cs) = map_option (map f) (those (map g cs))"
proof (induction cs)
  case Nil
  then show ?case by simp
next
  case (Cons c cs)
  then show ?case
    by (cases "g c"; cases "those (map g cs)") simp_all
qed

lemma those_subtrees:
  assumes "\<forall>c \<in> set cs. c < a \<longrightarrow> tree_at h' c = map_option f (tree_at h c)"
  shows "those (map (\<lambda>c. if c < a then tree_at h' c else None) cs)
    = map_option (map f) (those (map (\<lambda>c. if c < a then tree_at h c else None) cs))"
proof -
  have "map (\<lambda>c. if c < a then tree_at h' c else None) cs
      = map (\<lambda>c. map_option f (if c < a then tree_at h c else None)) cs"
    using assms by (intro map_cong) auto
  then show ?thesis
    by (simp only: those_map_option)
qed

lemma nodes_of_child:
  assumes "a < length h" "c \<in> set (children (h ! a))" "c < a"
  shows "set (nodes_of h c) \<subseteq> set (nodes_of h a)"
  using assms by (subst (2) nodes_of.simps) auto

lemma nodes_of_self: "a < length h \<Longrightarrow> a \<in> set (nodes_of h a)"
  by (subst nodes_of.simps) simp

lemma substitute_symbol: "substitute tbl (SymbolNode n) = SymbolNode (rename_name tbl n)"
  by (auto simp: rename_name_def split: option.splits)

text \<open>A store that holds the renamed node at every address of a tree holds the
  substituted tree.\<close>

lemma renamed_tree:
  assumes "length h' = length h"
  shows "\<forall>b \<in> set (nodes_of h a). h' ! b = renamed_node tbl (h ! b) \<Longrightarrow>
     tree_at h' a = map_option (substitute tbl) (tree_at h a) \<and> nodes_of h' a = nodes_of h a"
proof (induction a rule: less_induct)
  case (less a)
  show ?case
  proof (cases "a < length h")
    case False
    then show ?thesis
      using assms by (simp add: tree_at.simps [of h' a] tree_at.simps [of h a]
          nodes_of.simps [of h' a] nodes_of.simps [of h a])
  next
    case True
    have here: "h' ! a = renamed_node tbl (h ! a)"
      using less.prems nodes_of_self [OF True] by simp
    have kids: "children (h' ! a) = children (h ! a)"
      by (cases "h ! a") (simp_all add: here)
    have sub: "tree_at h' c = map_option (substitute tbl) (tree_at h c) \<and> nodes_of h' c = nodes_of h c"
      if "c \<in> set (children (h ! a))" "c < a" for c
    proof -
      have "set (nodes_of h c) \<subseteq> set (nodes_of h a)"
        using True that by (rule nodes_of_child)
      with less.prems have "\<forall>b \<in> set (nodes_of h c). h' ! b = renamed_node tbl (h ! b)"
        by auto
      with less.IH [OF that(2)] show ?thesis by simp
    qed
    have t: "those (map (\<lambda>c. if c < a then tree_at h' c else None) (children (h ! a)))
        = map_option (map (substitute tbl))
            (those (map (\<lambda>c. if c < a then tree_at h c else None) (children (h ! a))))"
      using sub by (intro those_subtrees) auto
    have n: "map (\<lambda>c. if c < a then nodes_of h' c else []) (children (h ! a))
        = map (\<lambda>c. if c < a then nodes_of h c else []) (children (h ! a))"
      using sub by (intro map_cong) auto
    have nodes: "nodes_of h' a = nodes_of h a"
      using True assms by (simp add: nodes_of.simps [of h' a] nodes_of.simps [of h a] kids n)
    have tree: "tree_at h' a = map_option (substitute tbl) (tree_at h a)"
    proof (cases "h ! a")
      case (HSymbol s)
      then show ?thesis
        using True assms here
        by (simp add: tree_at.simps [of h' a] tree_at.simps [of h a] substitute_symbol
            del: substitute.simps(1))
    next
      case (HConstant c)
      then show ?thesis
        using True assms here
        by (simp add: tree_at.simps [of h' a] tree_at.simps [of h a])
    next
      case (HOperator op fn cs)
      with t have "those (map (\<lambda>c. if c < a then tree_at h' c else None) cs)
          = map_option (map (substitute tbl)) (those (map (\<lambda>c. if c < a then tree_at h c else None) cs))"
        by simp
      then show ?thesis
        using True assms here HOperator
        by (simp add: tree_at.simps [of h' a] tree_at.simps [of h a] option.map_comp comp_def)
    next
      case (HOther ty cs)
      with t have "those (map (\<lambda>c. if c < a then tree_at h' c else None) cs)
          = map_option (map (substitute tbl)) (those (map (\<lambda>c. if c < a then tree_at h c else None) cs))"
        by simp
      then show ?thesis
        using True assms here HOther
        by (simp add: tree_at.simps [of h' a] tree_at.simps [of h a] option.map_comp comp_def)
    qed
    from tree nodes show ?thesis by simp
  qed
qed

lemma renamed_node_Nil: "renamed_node [] x = x"
  by (cases x) (simp_all add: rename_name_def)

lemma renamed_node_other: "\<not> is_HSymbol x \<Longrightarrow> renamed_node tbl x = x"
  by (cases x) simp_all

lemma nodes_of_bound: "set (nodes_of h a) \<subseteq> {..<length h}"
proof -
  have "closed_above 0 h"
    by (simp add: closed_above_def list_all_iff)
  from nodes_of_range [OF this, of a] show ?thesis by auto
qed

text \<open>A tree only depends on the nodes it consists of.\<close>

lemma tree_agree:
  assumes "length h' = length h" "\<forall>b \<in> set (nodes_of h a). h' ! b = h ! b"
  shows "tree_at h' a = tree_at h a" and "nodes_of h' a = nodes_of h a"
proof -
  have s: "map_option (substitute []) x = x" for x
  proof (cases x)
    case None
    then show ?thesis by simp
  next
    case (Some e)
    have "substitute [] e = e"
      by (induction e) (simp_all add: map_idI)
    with Some show ?thesis by simp
  qed
  from assms(2) have "\<forall>b \<in> set (nodes_of h a). h' ! b = renamed_node [] (h ! b)"
    by (simp add: renamed_node_Nil)
  from renamed_tree [OF assms(1) this]
  show "tree_at h' a = tree_at h a" and "nodes_of h' a = nodes_of h a"
    by (simp_all add: s)
qed

text \<open>The renaming loop over one rule, and over the rules of an instance, when no
  node belongs to two of the trees.\<close>

lemma substitute_heap_nth:
  assumes len: "length hc = length h1"
    and agree: "\<forall>b \<in> set (rule_nodes h1 r). hc ! b = h1 ! b"
    and d: "distinct (rule_nodes h1 r)"
  shows "length (substitute_heap tbl r hc) = length h1
    \<and> (\<forall>b < length h1. substitute_heap tbl r hc ! b
          = (if b \<in> set (rule_nodes h1 r) then renamed_node tbl (h1 ! b) else hc ! b))"
proof (cases "h_expression r")
  case None
  with len show ?thesis
    by (simp add: substitute_heap_def rule_nodes_def)
next
  case (Some rt)
  from agree Some have ag: "\<forall>b \<in> set (nodes_of h1 rt). hc ! b = h1 ! b"
    by (simp add: rule_nodes_def)
  have n: "nodes_of hc rt = nodes_of h1 rt"
    using len ag by (rule tree_agree)
  from d Some have dn: "distinct (nodes_of h1 rt)"
    by (simp add: rule_nodes_def)
  have ds: "distinct (symbol_addrs hc rt)"
    using dn by (simp add: symbol_addrs_def n)
  note f = fold_rename_nth [OF ds, of tbl hc]
  have sh: "substitute_heap tbl r hc = fold (rename_node tbl) (symbol_addrs hc rt) hc"
    by (simp add: substitute_heap_def Some)
  have rn: "rule_nodes h1 r = nodes_of h1 rt"
    by (simp add: rule_nodes_def Some)
  show ?thesis
  proof (intro conjI allI impI)
    show "length (substitute_heap tbl r hc) = length h1"
      using f len by (simp add: sh)
  next
    fix b
    assume b: "b < length h1"
    with f len have v: "substitute_heap tbl r hc ! b
        = (if b \<in> set (symbol_addrs hc rt) then renamed_node tbl (hc ! b) else hc ! b)"
      by (simp add: sh)
    show "substitute_heap tbl r hc ! b
        = (if b \<in> set (rule_nodes h1 r) then renamed_node tbl (h1 ! b) else hc ! b)"
    proof (cases "b \<in> set (nodes_of h1 rt)")
      case False
      then have "b \<notin> set (symbol_addrs hc rt)"
        by (simp add: symbol_addrs_def n)
      with v False show ?thesis by (simp add: rn)
    next
      case True
      with ag have e: "hc ! b = h1 ! b" by simp
      show ?thesis
      proof (cases "is_HSymbol (hc ! b)")
        case True
        with \<open>b \<in> set (nodes_of h1 rt)\<close> have "b \<in> set (symbol_addrs hc rt)"
          by (simp add: symbol_addrs_def n)
        with v e \<open>b \<in> set (nodes_of h1 rt)\<close> show ?thesis by (simp add: rn)
      next
        case False
        then have "b \<notin> set (symbol_addrs hc rt)"
          by (simp add: symbol_addrs_def)
        moreover have "renamed_node tbl (h1 ! b) = h1 ! b"
          using False e by (simp add: renamed_node_other)
        ultimately show ?thesis
          using v e True by (simp add: rn)
      qed
    qed
  qed
qed

lemma substitute_loop_nth:
  assumes "distinct (concat (map (rule_nodes h1) rs))"
    and "length hc = length h1"
    and "\<forall>b \<in> set (concat (map (rule_nodes h1) rs)). hc ! b = h1 ! b"
  shows "length (fold (substitute_heap tbl) rs hc) = length h1
    \<and> (\<forall>b < length h1. fold (substitute_heap tbl) rs hc ! b
          = (if b \<in> set (concat (map (rule_nodes h1) rs)) then renamed_node tbl (h1 ! b) else hc ! b))"
  using assms
proof (induction rs arbitrary: hc)
  case Nil
  then show ?case by simp
next
  case (Cons r rs)
  let ?hc1 = "substitute_heap tbl r hc"
  from Cons.prems(1) have d: "distinct (rule_nodes h1 r)"
    and drest: "distinct (concat (map (rule_nodes h1) rs))"
    and disj: "set (rule_nodes h1 r) \<inter> set (concat (map (rule_nodes h1) rs)) = {}"
    by auto
  from Cons.prems(3) have ag: "\<forall>b \<in> set (rule_nodes h1 r). hc ! b = h1 ! b"
    by simp
  note one = substitute_heap_nth [OF Cons.prems(2) ag d, of tbl]
  then have len1: "length ?hc1 = length h1" by simp
  have inb: "b < length h1" if "b \<in> set (concat (map (rule_nodes h1) rs))" for b
  proof -
    from that obtain r' where "r' \<in> set rs" "b \<in> set (rule_nodes h1 r')" by auto
    then show ?thesis
      using nodes_of_bound [of h1] by (auto simp: rule_nodes_def split: option.splits)
  qed
  have ag1: "\<forall>b \<in> set (concat (map (rule_nodes h1) rs)). ?hc1 ! b = h1 ! b"
  proof
    fix b
    assume b: "b \<in> set (concat (map (rule_nodes h1) rs))"
    with disj have "b \<notin> set (rule_nodes h1 r)" by auto
    moreover from b Cons.prems(3) have "hc ! b = h1 ! b" by simp
    ultimately show "?hc1 ! b = h1 ! b"
      using one inb [OF b] by simp
  qed
  note rest = Cons.IH [OF drest len1 ag1]
  show ?case
  proof (intro conjI allI impI)
    show "length (fold (substitute_heap tbl) (r # rs) hc) = length h1"
      using rest by simp
  next
    fix b
    assume b: "b < length h1"
    with rest have "fold (substitute_heap tbl) rs ?hc1 ! b
        = (if b \<in> set (concat (map (rule_nodes h1) rs)) then renamed_node tbl (h1 ! b) else ?hc1 ! b)"
      by simp
    moreover from one b have "?hc1 ! b
        = (if b \<in> set (rule_nodes h1 r) then renamed_node tbl (h1 ! b) else hc ! b)"
      by simp
    ultimately show "fold (substitute_heap tbl) (r # rs) hc ! b
        = (if b \<in> set (concat (map (rule_nodes h1) (r # rs))) then renamed_node tbl (h1 ! b) else hc ! b)"
      by auto
  qed
qed

text \<open>After the renaming loop the tree of every rule of the instance is the tree it
  had, substituted.\<close>

lemma substitute_loop_trees:
  assumes "distinct (concat (map (rule_nodes h1) rs))"
    and "r \<in> set rs" and "h_expression r = Some rt"
  shows "tree_at (fold (substitute_heap tbl) rs h1) rt = map_option (substitute tbl) (tree_at h1 rt)"
proof -
  let ?h' = "fold (substitute_heap tbl) rs h1"
  from substitute_loop_nth [OF assms(1) refl, of tbl]
  have len: "length ?h' = length h1"
    and v: "\<forall>b < length h1. ?h' ! b
          = (if b \<in> set (concat (map (rule_nodes h1) rs)) then renamed_node tbl (h1 ! b) else h1 ! b)"
    by simp_all
  have "\<forall>b \<in> set (nodes_of h1 rt). ?h' ! b = renamed_node tbl (h1 ! b)"
  proof
    fix b
    assume b: "b \<in> set (nodes_of h1 rt)"
    then have "b < length h1"
      using nodes_of_bound [of h1 rt] by auto
    moreover from b assms(2,3) have "b \<in> set (concat (map (rule_nodes h1) rs))"
      by (auto simp: rule_nodes_def intro!: bexI [of _ r])
    ultimately show "?h' ! b = renamed_node tbl (h1 ! b)"
      using v by simp
  qed
  from renamed_tree [OF len this] show ?thesis by simp
qed

lemma distinct_concat_nth:
  assumes "\<forall>j < length xs. distinct (xs ! j)"
    and "\<forall>j < length xs. \<forall>j' < length xs. j \<noteq> j' \<longrightarrow> set (xs ! j) \<inter> set (xs ! j') = {}"
  shows "distinct (concat xs)"
  using assms
proof (induction xs)
  case Nil
  then show ?case by simp
next
  case (Cons x xs)
  from Cons.prems(1) have dx: "distinct x" by auto
  have "\<forall>j < length xs. distinct (xs ! j)"
    using Cons.prems(1) by auto
  moreover have "\<forall>j < length xs. \<forall>j' < length xs. j \<noteq> j' \<longrightarrow> set (xs ! j) \<inter> set (xs ! j') = {}"
  proof (intro allI impI)
    fix j j'
    assume "j < length xs" "j' < length xs" "j \<noteq> j'"
    with Cons.prems(2) [rule_format, of "Suc j" "Suc j'"]
    show "set (xs ! j) \<inter> set (xs ! j') = {}" by simp
  qed
  ultimately have rest: "distinct (concat xs)"
    by (rule Cons.IH)
  have "set x \<inter> set y = {}" if "y \<in> set xs" for y
  proof -
    from that obtain j where "j < length xs" "y = xs ! j"
      by (auto simp: in_set_conv_nth)
    with Cons.prems(2) [rule_format, of 0 "Suc j"] show ?thesis by simp
  qed
  with dx rest show ?case by auto
qed

lemma separate_distinct:
  assumes "separate n h rs"
  shows "distinct (concat (map (rule_nodes h) rs))"
  using assms by (intro distinct_concat_nth) (auto simp: separate_def)

lemma separate_update:
  assumes sep: "separate n h rs" and n: "n \<le> length h"
    and r: "h_expression r = Some a" "a < length (h @ ext)"
    and new: "distinct (nodes_of (h @ ext) a)" "set (nodes_of (h @ ext) a) \<subseteq> {length h..<length (h @ ext)}"
  shows "separate n (h @ ext) (rs[i := r])"
proof -
  have old: "rule_nodes (h @ ext) (rs ! j) = rule_nodes h (rs ! j)" if "j < length rs" for j
  proof (cases "h_expression (rs ! j)")
    case None
    then show ?thesis by (simp add: rule_nodes_def)
  next
    case (Some b)
    with sep that have "b < length h"
      by (auto simp: separate_def split: option.splits)
    with Some show ?thesis
      by (simp add: rule_nodes_def append_frame)
  qed
  have rn: "rule_nodes (h @ ext) r = nodes_of (h @ ext) a"
    by (simp add: rule_nodes_def r)
  have one: "distinct (rule_nodes (h @ ext) (rs[i := r] ! j))
      \<and> set (rule_nodes (h @ ext) (rs[i := r] ! j)) \<subseteq> {n..<length (h @ ext)}
      \<and> (case h_expression (rs[i := r] ! j) of None \<Rightarrow> True | Some a \<Rightarrow> a < length (h @ ext))"
    if j: "j < length rs" for j
  proof (cases "j = i")
    case True
    with j new n r show ?thesis
      by (auto simp: rn)
  next
    case False
    from sep j have "distinct (rule_nodes h (rs ! j))" "set (rule_nodes h (rs ! j)) \<subseteq> {n..<length h}"
      "case h_expression (rs ! j) of None \<Rightarrow> True | Some a \<Rightarrow> a < length h"
      by (simp_all add: separate_def)
    with False j show ?thesis
      by (auto simp: old split: option.splits)
  qed
  have in_old: "set (rule_nodes h (rs ! j)) \<subseteq> {..<length h}" if "j < length rs" for j
  proof -
    from sep that have "set (rule_nodes h (rs ! j)) \<subseteq> {n..<length h}"
      by (simp add: separate_def)
    then show ?thesis by auto
  qed
  have two: "set (rule_nodes (h @ ext) (rs[i := r] ! j)) \<inter> set (rule_nodes (h @ ext) (rs[i := r] ! j')) = {}"
    if j: "j < length rs" "j' < length rs" "j \<noteq> j'" for j j'
  proof -
    consider "j = i" | "j' = i" | "j \<noteq> i" "j' \<noteq> i" by blast
    then show ?thesis
    proof cases
      case 1
      with j have "rs[i := r] ! j = r" "rs[i := r] ! j' = rs ! j'" by simp_all
      with new(2) in_old [OF j(2)] j show ?thesis
        by (fastforce simp: rn old)
    next
      case 2
      with j have "rs[i := r] ! j' = r" "rs[i := r] ! j = rs ! j" by simp_all
      with new(2) in_old [OF j(1)] j show ?thesis
        by (fastforce simp: rn old)
    next
      case 3
      with sep j show ?thesis
        by (simp add: old separate_def)
    qed
  qed
  show ?thesis
    unfolding separate_def using one two by simp
qed

lemma rules_in_fst [simp]: "map fst (rules_in h rs) = map fst rs"
  by (simp add: rules_in_def case_prod_unfold)

lemma rules_in_length [simp]: "length (rules_in h rs) = length rs"
  by (simp add: rules_in_def)

lemma rules_in_nth:
  "i < length rs \<Longrightarrow> rules_in h rs ! i
     = (fst (rs ! i), \<lparr>r_name = h_name (snd (rs ! i)),
          r_expression = (case h_expression (snd (rs ! i)) of None \<Rightarrow> None | Some a \<Rightarrow> tree_at h a)\<rparr>)"
  by (simp add: rules_in_def case_prod_unfold)

lemma rules_in_frame:
  assumes "roots_below (length h) rs"
  shows "rules_in (h @ ext) rs = rules_in h rs"
  unfolding rules_in_def
proof (rule map_cong [OF refl])
  fix x
  assume x: "x \<in> set rs"
  obtain k r where kr: "x = (k, r)" by (cases x)
  show "(case x of (k, r) \<Rightarrow> (k, \<lparr>r_name = h_name r,
          r_expression = (case h_expression r of None \<Rightarrow> None | Some a \<Rightarrow> tree_at (h @ ext) a)\<rparr>))
      = (case x of (k, r) \<Rightarrow> (k, \<lparr>r_name = h_name r,
          r_expression = (case h_expression r of None \<Rightarrow> None | Some a \<Rightarrow> tree_at h a)\<rparr>))"
  proof (cases "h_expression r")
    case None
    then show ?thesis by (simp add: kr)
  next
    case (Some a)
    with assms x kr have "a < length h"
      by (auto simp: roots_below_def list_all_iff)
    with Some show ?thesis
      by (simp add: kr append_frame)
  qed
qed

lemma rules_in_update:
  "rules_in h (AList.update v new_HRule rs) = AList.update v new_Rule (rules_in h rs)"
  by (induction rs) (auto simp: rules_in_def new_HRule_def new_Rule_def)

lemma rules_in_new:
  "rules_in h (fold (\<lambda>v rs. AList.update v new_HRule rs) vs rs0)
     = fold (\<lambda>v rs. AList.update v new_Rule rs) vs (rules_in h rs0)"
  by (induction vs arbitrary: rs0) (simp_all add: rules_in_update)

lemma new_rules_unset:
  assumes "\<forall>x \<in> set rs0. h_expression (snd x) = None"
  shows "\<forall>x \<in> set (fold (\<lambda>v rs. AList.update v new_HRule rs) vs rs0). h_expression (snd x) = None"
  using assms
proof (induction vs arbitrary: rs0)
  case Nil
  then show ?case by simp
next
  case (Cons v vs)
  have "set (AList.update v new_HRule rs0) \<subseteq> insert (v, new_HRule) (set rs0)"
    by (induction rs0) auto
  with Cons.prems have "\<forall>x \<in> set (AList.update v new_HRule rs0). h_expression (snd x) = None"
    by (auto simp: new_HRule_def)
  from Cons.IH [OF this] show ?case by simp
qed

lemma separate_unset:
  assumes "\<forall>x \<in> set rs. h_expression (snd x) = None"
  shows "separate n h (map snd rs)"
  using assms by (simp add: separate_def rule_nodes_def)

lemma Rule_set_value:
  "Rule_set parse r t None = \<lparr>r_name = None, r_expression = Some (parse t)\<rparr>"
  by (cases r) (simp add: Rule_set_def)

text \<open>One round of the cloning loop on the store is one round of the loop on
  values.\<close>

lemma clone_rule_heap_refines:
  assumes step: "clone_rule_heap parse toStr base i (rsh, hk) = Inr (rsh', hk')"
    and ext: "\<exists>ext. hk = h @ ext"
    and base: "roots_below (length h) base"
    and i: "i < length base"
    and sep: "separate (length h) hk (map snd rsh)"
  shows "clone_rule parse toStr (rules_in h base) i (rules_in hk rsh) = Inr (rules_in hk' rsh')
     \<and> (\<exists>ext. hk' = h @ ext) \<and> separate (length h) hk' (map snd rsh')"
proof (cases "h_expression (snd (base ! i))")
  case None
  with step have "rsh' = rsh" "hk' = hk"
    by (simp_all add: clone_rule_heap_def)
  moreover have "r_expression (snd (rules_in h base ! i)) = None"
    using None i by (simp add: rules_in_nth)
  ultimately show ?thesis
    using ext sep by (simp add: clone_rule_def)
next
  case (Some rt)
  from base i Some have rt: "rt < length h"
    using nth_mem [OF i] by (cases "base ! i") (auto simp: roots_below_def list_all_iff)
  from ext obtain ext0 where hk: "hk = h @ ext0" by auto
  have tk: "tree_at hk rt = tree_at h rt"
    using rt by (simp add: hk append_frame)
  from step Some obtain e where e: "tree_at hk rt = Some e" and il: "i < length rsh"
    by (auto simp: clone_rule_heap_def split: if_splits option.splits)
  obtain rt' h1 where al: "alloc (parse (toStr e)) hk = (rt', h1)"
    by (cases "alloc (parse (toStr e)) hk")
  from step Some e il al
  have rsh': "rsh' = rsh[i := (fst (rsh ! i), \<lparr>h_name = None, h_expression = Some rt'\<rparr>)]"
    and hk': "hk' = h1"
    by (simp_all add: clone_rule_heap_def)
  from alloc_extends(1) [OF al] obtain ext1 where h1: "h1 = hk @ ext1" and r1: "rt' < length h1"
    by auto
  note at = alloc_tree(1) [OF al]
  have rb: "roots_below (length hk) rsh"
    unfolding roots_below_def list_all_iff
  proof
    fix x
    assume "x \<in> set rsh"
    then obtain j where j: "j < length rsh" "x = rsh ! j"
      by (auto simp: in_set_conv_nth)
    with sep have "case h_expression (snd (rsh ! j)) of None \<Rightarrow> True | Some a \<Rightarrow> a < length hk"
      by (simp add: separate_def)
    with j show "case x of (k, r) \<Rightarrow> (case h_expression r of None \<Rightarrow> True | Some a \<Rightarrow> a < length hk)"
      by (simp add: case_prod_unfold)
  qed
  have fr: "rules_in h1 rsh = rules_in hk rsh"
    unfolding h1 using rb by (rule rules_in_frame)
  have new: "rules_in hk' rsh'
      = (rules_in hk rsh)[i := (fst (rsh ! i), \<lparr>r_name = None, r_expression = Some (parse (toStr e))\<rparr>)]"
  proof -
    have "rules_in h1 rsh'
        = (rules_in h1 rsh)[i := (fst (rsh ! i), \<lparr>r_name = None, r_expression = tree_at h1 rt'\<rparr>)]"
      by (simp add: rules_in_def rsh' map_update)
    with at fr show ?thesis
      by (simp add: hk')
  qed
  have val: "clone_rule parse toStr (rules_in h base) i (rules_in hk rsh) = Inr (rules_in hk' rsh')"
    using Some i il e tk
    by (simp add: clone_rule_def rules_in_nth new Rule_set_value)
  have "separate (length h) (hk @ ext1) ((map snd rsh)[i := \<lparr>h_name = None, h_expression = Some rt'\<rparr>])"
    using sep
  proof (rule separate_update)
    show "length h \<le> length hk" by (simp add: hk)
    show "h_expression \<lparr>h_name = None, h_expression = Some rt'\<rparr> = Some rt'" by simp
    show "rt' < length (hk @ ext1)" using r1 h1 by simp
    show "distinct (nodes_of (hk @ ext1) rt')" using at h1 by simp
    show "set (nodes_of (hk @ ext1) rt') \<subseteq> {length hk..<length (hk @ ext1)}" using at h1 by simp
  qed
  then have "separate (length h) hk' (map snd rsh')"
    by (simp add: hk' h1 rsh' map_update)
  moreover have "\<exists>ext. hk' = h @ ext"
    by (simp add: hk' h1 hk)
  ultimately show ?thesis
    using val by simp
qed

lemma for_each_refines:
  assumes "for_each f ix st = Inr st'" "R st sv"
    and "\<And>i st st' sv. i \<in> set ix \<Longrightarrow> f i st = Inr st' \<Longrightarrow> R st sv \<Longrightarrow> \<exists>sv'. g i sv = Inr sv' \<and> R st' sv'"
  shows "\<exists>sv'. for_each g ix sv = Inr sv' \<and> R st' sv'"
  using assms
proof (induction ix arbitrary: st sv)
  case Nil
  then show ?case by simp
next
  case (Cons i ix)
  from Cons.prems(1) obtain st1 where s1: "f i st = Inr st1" and rest: "for_each f ix st1 = Inr st'"
    by (auto split: sum.splits)
  from Cons.prems(3) [OF _ s1 Cons.prems(2)] obtain sv1 where v1: "g i sv = Inr sv1" and r1: "R st1 sv1"
    by auto
  have "\<exists>sv'. for_each g ix sv1 = Inr sv' \<and> R st' sv'"
  proof (rule Cons.IH [OF rest r1])
    fix j s s' v
    assume "j \<in> set ix" "f j s = Inr s'" "R s v"
    then show "\<exists>sv'. g j v = Inr sv' \<and> R s' sv'"
      using Cons.prems(3) [of j s s' v] by simp
  qed
  with v1 show ?case by simp
qed

lemma substitute_rule_value:
  "substitute_rule tbl \<lparr>r_name = n, r_expression = x\<rparr>
     = \<lparr>r_name = n, r_expression = map_option (substitute tbl) x\<rparr>"
  by (cases x) (simp_all add: substitute_rule_def)

lemma substitute_loop_rules:
  assumes "separate n h1 (map snd rs)"
  shows "rules_in (fold (substitute_heap tbl) (map snd rs) h1) rs
     = map (\<lambda>(k, r). (k, substitute_rule tbl r)) (rules_in h1 rs)"
proof -
  let ?h' = "fold (substitute_heap tbl) (map snd rs) h1"
  have d: "distinct (concat (map (rule_nodes h1) (map snd rs)))"
    using assms by (rule separate_distinct)
  have "(case h_expression r of None \<Rightarrow> None | Some a \<Rightarrow> tree_at ?h' a)
      = map_option (substitute tbl) (case h_expression r of None \<Rightarrow> None | Some a \<Rightarrow> tree_at h1 a)"
    if "(k, r) \<in> set rs" for k r
  proof (cases "h_expression r")
    case None
    then show ?thesis by simp
  next
    case (Some rt)
    from that have "r \<in> set (map snd rs)" by force
    from substitute_loop_trees [OF d this Some, of tbl] Some show ?thesis by simp
  qed
  then show ?thesis
    unfolding rules_in_def by (auto simp: substitute_rule_value)
qed

text \<open>The constructor on the store computes what the constructor on values computes:
  when it returns, the constructor on values returns for the definition read from the
  store before the call, and its rules are the rules of the instance read from the
  store after the call.\<close>

lemma Interaction_heap_refines:
  assumes run: "Interaction_heap parse toStr sys nm base_rules v_args p_args h = Inr (inst_rules, h')"
    and base: "roots_below (length h) base_rules"
  shows "\<exists>i. Interaction_new parse toStr sys \<lparr>i_name = nm, rules = rules_in h base_rules\<rparr> v_args p_args = Inr i
     \<and> i_name i = nm \<and> rules i = rules_in h' inst_rules"
proof -
  let ?rs0 = "fold (\<lambda>v rs. AList.update v new_HRule rs) v_args []"
  let ?rv0 = "fold (\<lambda>v rs. AList.update v new_Rule rs) v_args []"
  let ?R = "\<lambda>st sv. sv = rules_in (snd st) (fst st) \<and> (\<exists>ext. snd st = h @ ext)
      \<and> separate (length h) (snd st) (map snd (fst st))"
  from run obtain rs h1 where loop:
    "for_each (clone_rule_heap parse toStr base_rules) [0..<length base_rules] (?rs0, h) = Inr (rs, h1)"
    by (auto simp: Interaction_heap_def split: sum.splits)
  have "\<forall>x \<in> set ?rs0. h_expression (snd x) = None"
    by (rule new_rules_unset) simp
  then have "separate (length h) h (map snd ?rs0)"
    by (rule separate_unset)
  moreover have "rules_in h ?rs0 = ?rv0"
    by (simp add: rules_in_new) (simp add: rules_in_def)
  ultimately have start: "?R (?rs0, h) ?rv0"
    by simp
  have "\<exists>sv'. for_each (clone_rule parse toStr (rules_in h base_rules)) [0..<length base_rules] ?rv0 = Inr sv'
      \<and> ?R (rs, h1) sv'"
    using loop start
  proof (rule for_each_refines)
    fix i st st' sv
    assume i: "i \<in> set [0..<length base_rules]"
      and f: "clone_rule_heap parse toStr base_rules i st = Inr st'"
      and r: "?R st sv"
    obtain rsh hk where st: "st = (rsh, hk)" by (cases st)
    obtain rsh' hk' where st': "st' = (rsh', hk')" by (cases st')
    from i have il: "i < length base_rules" by simp
    from r st have sv: "sv = rules_in hk rsh" and ext: "\<exists>ext. hk = h @ ext"
      and sep: "separate (length h) hk (map snd rsh)"
      by simp_all
    from clone_rule_heap_refines [OF f [unfolded st st'] ext base il sep]
    show "\<exists>sv'. clone_rule parse toStr (rules_in h base_rules) i sv = Inr sv' \<and> ?R st' sv'"
      by (simp add: sv st')
  qed
  then have vloop: "for_each (clone_rule parse toStr (rules_in h base_rules)) [0..<length base_rules] ?rv0
      = Inr (rules_in h1 rs)"
    and ext: "\<exists>ext. h1 = h @ ext" and sep: "separate (length h) h1 (map snd rs)"
    by auto
  from ext obtain ext1 where h1: "h1 = h @ ext1" by auto
  have fr: "rules_in h1 base_rules = rules_in h base_rules"
    unfolding h1 using base by (rule rules_in_frame)
  have ps: "parameters_of \<lparr>i_name = nm, rules = rules_in h base_rules\<rparr>
      = parameters_of \<lparr>i_name = nm', rules = rules_in h base_rules\<rparr>" for nm'
    by (simp add: parameters_of_def variables_def)
  note sub = substitute_loop_rules [OF sep]
  have ir: "inst_rules = rs"
    using run loop by (auto simp: Interaction_heap_def Let_def split: if_splits)
  from run loop show ?thesis
    unfolding ir Interaction_heap_def Interaction_new_def
    by (auto simp: Let_def InteractionDefinition_def vloop fr variables_def sub split: if_splits)
qed

text \<open>On the sample system: the instance of \<open>decay\<close> for the species \<open>A\<close>.\<close>

lemma Interaction_heap_refines_decay:
  "\<exists>i. Interaction_new (parse_of sample_texts) (toString_of sample_texts) decay_System
          \<lparr>i_name = ''decay'', rules = rules_in decay_store decay_hrules\<rparr> [''A''] [''k''] = Inr i
       \<and> i_name i = ''decay''
       \<and> rules i = [(''A'', \<lparr>r_name = None, r_expression = Some decay_rule_A\<rparr>)]"
proof -
  have b: "roots_below (length decay_store) decay_hrules"
    by (simp add: roots_below_def decay_hrules_def decay_store_def)
  have t7: "tree_at decay_store_bound 7 = Some decay_rule_A"
    by (simp add: tree_at.simps decay_store_bound_def decay_rule_A_def)
  from Interaction_heap_refines [OF Interaction_heap_decay b] show ?thesis
    by (simp add: rules_in_def t7)
qed

section \<open>trim when the cutoff is a sample time\<close>

lemma indexOf_first:
  assumes "i < length xs" "xs ! i = x" "\<forall>l < i. xs ! l \<noteq> x"
  shows "indexOf xs x = int i"
proof -
  have "x \<in> set xs" using assms(1,2) by auto
  from indexOf_present [OF this] obtain j where j: "j < length xs" "indexOf xs x = int j"
    "xs ! j = x" "\<forall>l < j. xs ! l \<noteq> x"
    by blast
  have "j = i"
  proof (rule ccontr)
    assume "j \<noteq> i"
    then consider "j < i" | "i < j" by arith
    then show False
      using assms j by cases auto
  qed
  with j show ?thesis by simp
qed

text \<open>When the cutoff is the time of a sample, \<open>trim\<close> drops the samples before its
  first occurrence, from \<open>time\<close> and from every trajectory.\<close>

lemma trim_found:
  assumes "js_sub (last_elem (time sim)) (Some bsize) = Some t0"
    and "i < length (time sim)" "time sim ! i = Some t0" "\<forall>l < i. time sim ! l \<noteq> Some t0"
    and "synced sim"
  shows "trim sim bsize
    = Inr \<lparr>time = drop i (time sim),
           trajectory = map (\<lambda>(id_tr, tr). (id_tr, map_option (drop i) tr)) (trajectory sim)\<rparr>"
proof -
  have idx: "num_indexOf (time sim) (Some t0) = int i"
    using indexOf_first [OF assms(2,3,4)] by (simp add: num_indexOf_def)
  have "\<not> list_ex (\<lambda>(id_tr, tr). tr = None) (trajectory sim)"
    using assms(5) by (auto simp: synced_iff list_ex_iff)
  then show ?thesis
    by (simp add: trim_def assms(1) idx)
qed

text \<open>For increasing times these are exactly the samples older than the cutoff.\<close>

lemma sorted_first_occurrence:
  fixes ts :: "real list"
  assumes "sorted ts" "i < length ts" "ts ! i = t0" "\<forall>l < i. ts ! l \<noteq> t0"
  shows "take i ts = filter (\<lambda>t. t < t0) ts" and "drop i ts = filter (\<lambda>t. t0 \<le> t) ts"
proof -
  have before: "\<forall>t \<in> set (take i ts). t < t0"
  proof
    fix t
    assume "t \<in> set (take i ts)"
    then obtain l where l: "l < i" "ts ! l = t"
      using assms(2) by (auto simp: in_set_conv_nth)
    then have "t \<le> t0"
      using assms(1,2,3) by (auto simp: sorted_iff_nth_mono)
    moreover have "t \<noteq> t0"
      using l assms(4) by auto
    ultimately show "t < t0" by simp
  qed
  have after: "\<forall>t \<in> set (drop i ts). t0 \<le> t"
  proof
    fix t
    assume "t \<in> set (drop i ts)"
    then obtain l where l: "i \<le> l" "l < length ts" "ts ! l = t"
      by (auto simp: in_set_conv_nth) (metis add.commute le_add2 less_diff_conv)
    then show "t0 \<le> t"
      using assms(1,3) by (auto simp: sorted_iff_nth_mono)
  qed
  have split: "ts = take i ts @ drop i ts" by simp
  have "filter (\<lambda>t. t < t0) ts = filter (\<lambda>t. t < t0) (take i ts) @ filter (\<lambda>t. t < t0) (drop i ts)"
    by (subst split) (simp only: filter_append)
  also have "filter (\<lambda>t. t < t0) (take i ts) = take i ts"
    using before by (simp add: filter_id_conv)
  also have "filter (\<lambda>t. t < t0) (drop i ts) = []"
    using after by (auto simp: filter_empty_conv)
  finally show "take i ts = filter (\<lambda>t. t < t0) ts" by simp
  have "filter (\<lambda>t. t0 \<le> t) ts = filter (\<lambda>t. t0 \<le> t) (take i ts) @ filter (\<lambda>t. t0 \<le> t) (drop i ts)"
    by (subst split) (simp only: filter_append)
  also have "filter (\<lambda>t. t0 \<le> t) (take i ts) = []"
    using before by (auto simp: filter_empty_conv)
  also have "filter (\<lambda>t. t0 \<le> t) (drop i ts) = drop i ts"
    using after by (simp add: filter_id_conv)
  finally show "drop i ts = filter (\<lambda>t. t0 \<le> t) ts" by simp
qed

end
